theory Spec2Isabelle
  imports Complex_Main "HOL-Library.Word" "HOL-Library.AList" "HOL-Library.Multiset"
    "HOL-Library.Char_ord" "HOL-Library.List_Lexorder"
begin

section \<open>Failures\<close>

text \<open>
  The program of \<^verbatim>\<open>src/main.cpp\<close> can leave its defined behaviour in two ways: a C++
  exception is thrown (nothing in the program catches one, so the process is terminated),
  or an operation is used outside its precondition, which the language leaves undefined.
  Both are values of the model, so that every such path of the source is a branch here.
\<close>

datatype undefined_op =
    Read_Out_Of_Bounds      \<comment> \<open>\<^verbatim>\<open>string_view::operator[]\<close> with \<^verbatim>\<open>pos >= size()\<close>\<close>
  | Remove_Prefix_Too_Long  \<comment> \<open>\<^verbatim>\<open>string_view::remove_prefix(n)\<close> with \<^verbatim>\<open>n > size()\<close>\<close>
  | Front_Of_Empty_Span     \<comment> \<open>\<^verbatim>\<open>span::front()\<close> of an empty span\<close>
  | Deref_End_Iterator      \<comment> \<open>\<^verbatim>\<open>it->first\<close> where \<^verbatim>\<open>it\<close> is \<^verbatim>\<open>end()\<close>\<close>
  | Division_By_Zero        \<comment> \<open>integer division by zero\<close>

datatype exception =
    Runtime_Error string    \<comment> \<open>\<^verbatim>\<open>std::runtime_error\<close> with its message\<close>
  | Out_Of_Range            \<comment> \<open>\<^verbatim>\<open>std::out_of_range\<close> (\<^verbatim>\<open>substr\<close>, \<^verbatim>\<open>stoi\<close>)\<close>
  | Invalid_Argument        \<comment> \<open>\<^verbatim>\<open>std::invalid_argument\<close> (\<^verbatim>\<open>stoi\<close>)\<close>
  | Length_Error            \<comment> \<open>\<^verbatim>\<open>std::length_error\<close> (\<^verbatim>\<open>vector\<close> constructor)\<close>

datatype failure = Undefined undefined_op | Thrown exception

section \<open>Byte views\<close>

text \<open>
  A \<^verbatim>\<open>std::string_view\<close> is a pointer and a length. The pointer is kept as the offset
  of the first viewed byte from the start of the mapped file, the viewed bytes themselves
  are carried along, so a view knows where it lies and what it shows.
  Sizes and positions are \<^verbatim>\<open>std::size_t\<close> values (64 bits); they are natural numbers
  here, and where the source computes something that can leave the range, the wrap-around
  modulo \<open>2 ^ 64\<close> is written out.
  The result \<^verbatim>\<open>npos\<close> of a failed search is \<open>None\<close>; as a count,
  \<^verbatim>\<open>npos\<close> is the largest value of the type.
\<close>

record string_view =
  sv_ptr :: nat
  sv_chars :: string

definition NL :: char where
  "NL = CHR 0x0A"

definition sv_size :: "string_view \<Rightarrow> nat" where
  "sv_size v = length (sv_chars v)"

definition sv_at :: "string_view \<Rightarrow> nat \<Rightarrow> failure + char" where
  "sv_at v pos =
     (if pos < sv_size v then Inr (sv_chars v ! pos) else Inl (Undefined Read_Out_Of_Bounds))"

fun find_first :: "char \<Rightarrow> string \<Rightarrow> nat option" where
  "find_first c [] = None"
| "find_first c (x # xs) =
     (if x = c then Some 0 else map_option Suc (find_first c xs))"

definition sv_find :: "string_view \<Rightarrow> char \<Rightarrow> nat \<Rightarrow> nat option" where
  "sv_find v c pos = map_option (\<lambda>k. pos + k) (find_first c (drop pos (sv_chars v)))"

definition npos :: nat where
  "npos = 2 ^ 64 - 1"

text \<open>
  \<^verbatim>\<open>substr(pos, n)\<close> throws when \<^verbatim>\<open>pos > size()\<close> and otherwise views
  \<^verbatim>\<open>min(n, size() - pos)\<close> bytes from \<^verbatim>\<open>pos\<close>.
\<close>

definition sv_substr :: "string_view \<Rightarrow> nat \<Rightarrow> nat \<Rightarrow> failure + string_view" where
  "sv_substr v pos n =
     (if pos > sv_size v then Inl (Thrown Out_Of_Range)
      else Inr \<lparr>sv_ptr = sv_ptr v + pos,
                sv_chars = take (min n (sv_size v - pos)) (drop pos (sv_chars v))\<rparr>)"

text \<open>
  The source adds one to the result of a search without looking at it:
  \<^verbatim>\<open>data.find(c, start) + 1\<close>. For \<^verbatim>\<open>npos\<close> the sum wraps around to 0.
\<close>

definition find_plus_one :: "nat option \<Rightarrow> nat" where
  "find_plus_one r = (case r of None \<Rightarrow> 0 | Some k \<Rightarrow> (k + 1) mod 2 ^ 64)"

definition sv_remove_prefix :: "string_view \<Rightarrow> nat \<Rightarrow> failure + string_view" where
  "sv_remove_prefix v n =
     (if n > sv_size v then Inl (Undefined Remove_Prefix_Too_Long)
      else Inr \<lparr>sv_ptr = sv_ptr v + n, sv_chars = drop n (sv_chars v)\<rparr>)"

section \<open>Line scanner: \<^verbatim>\<open>Reader\<close>\<close>

record reader =
  r_data :: string_view
  r_pos :: nat

definition Reader :: "string_view \<Rightarrow> reader" where
  "Reader d = \<lparr>r_data = d, r_pos = 0\<rparr>"

text \<open>
  \<^verbatim>\<open>getline\<close> returns \<^verbatim>\<open>false\<close> and leaves the reader and the line untouched when no
  terminator is found at or after \<^verbatim>\<open>pos_\<close>; otherwise it stores the line and moves
  \<^verbatim>\<open>pos_\<close> behind the terminator. The result is \<open>None\<close> for \<^verbatim>\<open>false\<close>, and the
  line with the new reader for \<^verbatim>\<open>true\<close>.
\<close>

definition getline :: "reader \<Rightarrow> failure + (string_view \<times> reader) option" where
  "getline r =
     (case sv_find (r_data r) NL (r_pos r) of
        None \<Rightarrow> Inr None
      | Some nl \<Rightarrow>
          (case sv_substr (r_data r) (r_pos r) (nl - r_pos r) of
             Inl e \<Rightarrow> Inl e
           | Inr line \<Rightarrow> Inr (Some (line, r\<lparr>r_pos := nl + 1\<rparr>))))"

lemma find_first_Some:
  "find_first c xs = Some k \<Longrightarrow> k < length xs \<and> xs ! k = c \<and> c \<notin> set (take k xs)"
proof (induction xs arbitrary: k)
  case Nil
  then show ?case by simp
next
  case (Cons x xs)
  show ?case
  proof (cases "x = c")
    case True
    with Cons.prems show ?thesis by simp
  next
    case False
    with Cons.prems obtain j where j: "find_first c xs = Some j" "k = Suc j"
      by auto
    from Cons.IH [OF j(1)] False j(2) show ?thesis by auto
  qed
qed

lemma find_first_None: "find_first c xs = None \<longleftrightarrow> c \<notin> set xs"
  by (induction xs) auto

lemma sv_find_Some:
  assumes "sv_find v c pos = Some k"
  shows "pos \<le> k" and "k < sv_size v" and "sv_chars v ! k = c"
    and "c \<notin> set (take (k - pos) (drop pos (sv_chars v)))"
proof -
  from assms obtain j where j: "find_first c (drop pos (sv_chars v)) = Some j" "k = pos + j"
    by (auto simp: sv_find_def)
  note f = find_first_Some [OF j(1)]
  show "pos \<le> k" using j(2) by simp
  from f have "j < length (sv_chars v) - pos" by simp
  then have lt: "pos + j < length (sv_chars v)" by arith
  show "k < sv_size v" using lt j(2) by (simp add: sv_size_def)
  show "sv_chars v ! k = c" using f lt j(2) by simp
  show "c \<notin> set (take (k - pos) (drop pos (sv_chars v)))" using f j(2) by simp
qed

lemma sv_find_None: "sv_find v c pos = None \<longleftrightarrow> c \<notin> set (drop pos (sv_chars v))"
  by (simp add: sv_find_def find_first_None)

lemma getline_advances:
  assumes "getline r = Inr (Some (line, r'))"
  shows "r_pos r < r_pos r'" and "r_pos r' \<le> sv_size (r_data r)" and "r_data r' = r_data r"
proof -
  from assms obtain nl where nl: "sv_find (r_data r) NL (r_pos r) = Some nl"
    and r': "r' = r\<lparr>r_pos := nl + 1\<rparr>"
    by (auto simp: getline_def split: option.splits sum.splits)
  from sv_find_Some(1,2) [OF nl] r'
  show "r_pos r < r_pos r'" and "r_pos r' \<le> sv_size (r_data r)" and "r_data r' = r_data r"
    by simp_all
qed

text \<open>
  The loop \<^verbatim>\<open>for (auto line = std::string_view{}; reader.getline(line); )\<close>, collecting
  the lines it yields, in order.
\<close>

function read_lines :: "reader \<Rightarrow> failure + string_view list" where
  "read_lines r =
     (case getline r of
        Inl e \<Rightarrow> Inl e
      | Inr None \<Rightarrow> Inr []
      | Inr (Some (line, r')) \<Rightarrow>
          (case read_lines r' of Inl e \<Rightarrow> Inl e | Inr ls \<Rightarrow> Inr (line # ls)))"
  by pat_completeness auto
termination
proof (relation "measure (\<lambda>r. sv_size (r_data r) - r_pos r)")
  show "wf (measure (\<lambda>r. sv_size (r_data r) - r_pos r))" by simp
next
  fix r :: reader and x2 x2a x y
  assume "getline r = Inr x2" "x2 = Some x2a" "(x, y) = x2a"
  then have "getline r = Inr (Some (x, y))" by simp
  from getline_advances [OF this]
  show "(y, r) \<in> measure (\<lambda>r. sv_size (r_data r) - r_pos r)" by simp
qed

declare read_lines.simps [simp del]

text \<open>
  An auxiliary notion for the properties of the line scanner, not part of the program:
  the views of consecutive lines that start at offset \<open>p\<close>, each followed by one
  terminator byte.
\<close>

fun line_views :: "nat \<Rightarrow> string list \<Rightarrow> string_view list" where
  "line_views p [] = []"
| "line_views p (l # ls) = \<lparr>sv_ptr = p, sv_chars = l\<rparr> # line_views (p + length l + 1) ls"

section \<open>Statistics: \<^verbatim>\<open>Stats\<close>\<close>

text \<open>
  The fields \<^verbatim>\<open>min_\<close>, \<^verbatim>\<open>max_\<close> (\<^verbatim>\<open>int16_t\<close>), \<^verbatim>\<open>sum_\<close> (\<^verbatim>\<open>int64_t\<close>) and
  \<^verbatim>\<open>count_\<close> (\<^verbatim>\<open>int32_t\<close>) are machine words, read as two's complement numbers by
  \<open>sint\<close>; additions are those of the machine, modulo \<open>2 ^ 64\<close> and \<open>2 ^ 32\<close>.
  \<^verbatim>\<open>std::min(a, b)\<close> is \<^verbatim>\<open>b < a ? b : a\<close> and \<^verbatim>\<open>std::max(a, b)\<close> is
  \<^verbatim>\<open>a < b ? b : a\<close>, on signed values.
\<close>

record stats =
  st_min :: "16 word"
  st_max :: "16 word"
  st_sum :: "64 word"
  st_count :: "32 word"

definition min16 :: "16 word \<Rightarrow> 16 word \<Rightarrow> 16 word" where
  "min16 a b = (if b <s a then b else a)"

definition max16 :: "16 word \<Rightarrow> 16 word \<Rightarrow> 16 word" where
  "max16 a b = (if a <s b then b else a)"

text \<open>The default member initialisers: \<^verbatim>\<open>Stats{}\<close>.\<close>

definition Stats :: stats where
  "Stats = \<lparr>st_min = 0x7FFF, st_max = 0x8000, st_sum = 0, st_count = 0\<rparr>"

definition update :: "stats \<Rightarrow> 16 word \<Rightarrow> stats" where
  "update s temp =
     \<lparr>st_min = min16 (st_min s) temp,
      st_max = max16 (st_max s) temp,
      st_sum = st_sum s + scast temp,
      st_count = st_count s + 1\<rparr>"

definition merge :: "stats \<Rightarrow> stats \<Rightarrow> stats" where
  "merge s o' =
     \<lparr>st_min = min16 (st_min s) (st_min o'),
      st_max = max16 (st_max s) (st_max o'),
      st_sum = st_sum s + st_sum o',
      st_count = st_count s + st_count o'\<rparr>"

text \<open>
  The Statistics values that updates and merges build from the initial one, each with
  the list of the values applied to reach it (a merge applies the values of its argument).
\<close>

inductive reachable :: "stats \<Rightarrow> 16 word list \<Rightarrow> bool" where
  initial: "reachable Stats []"
| updated: "reachable s vs \<Longrightarrow> reachable (update s t) (vs @ [t])"
| merged: "reachable s vs \<Longrightarrow> reachable s' ws \<Longrightarrow> reachable (merge s s') (vs @ ws)"

text \<open>
  \<^verbatim>\<open>StatsMap\<close>, an \<^verbatim>\<open>unordered_map\<close> from names to statistics, is an association list
  with pairwise distinct keys. The order of the list is the order in which the map is
  iterated, which C++ leaves open; what is looked up under a name is \<open>map_of\<close>.
  \<^verbatim>\<open>make_map\<close> only reserves capacity.
\<close>

type_synonym StatsMap = "(string \<times> stats) list"

definition make_map :: StatsMap where
  "make_map = []"

section \<open>Worker count: \<^verbatim>\<open>number_of_threads\<close>\<close>

text \<open>
  What the program reads from its host: the value of the environment variable
  \<^verbatim>\<open>NUM_THREADS\<close> if it is set, the result of \<^verbatim>\<open>std::thread::hardware_concurrency()\<close>
  (an \<^verbatim>\<open>unsigned\<close>), and the bytes of the regular files that can be opened for reading,
  by path.
\<close>

record host =
  getenv_NUM_THREADS :: "string option"
  hardware_concurrency :: "32 word"
  files :: "string \<Rightarrow> string option"

text \<open>
  \<^verbatim>\<open>std::stoi(str)\<close> with base 10, as the standard library defines it through
  \<^verbatim>\<open>strtol\<close>: white space is skipped, then an optional sign and the longest run of
  decimal digits are read, and what follows is ignored. Without a digit it throws
  \<^verbatim>\<open>std::invalid_argument\<close>, with a value outside \<^verbatim>\<open>int\<close> it throws
  \<^verbatim>\<open>std::out_of_range\<close>.
\<close>

definition is_space :: "char \<Rightarrow> bool" where
  "is_space c \<longleftrightarrow> c \<in> set [CHR '' '', CHR 0x09, CHR 0x0A, CHR 0x0B, CHR 0x0C, CHR 0x0D]"

definition is_digit :: "char \<Rightarrow> bool" where
  "is_digit c \<longleftrightarrow> 48 \<le> (of_char c :: nat) \<and> (of_char c :: nat) \<le> 57"

definition digit_value :: "char \<Rightarrow> int" where
  "digit_value c = of_char c - 48"

definition digits_value :: "string \<Rightarrow> int" where
  "digits_value ds = foldl (\<lambda>acc c. 10 * acc + digit_value c) 0 ds"

definition stoi :: "string \<Rightarrow> failure + int" where
  "stoi str =
     (let s = dropWhile is_space str;
          neg = (s \<noteq> [] \<and> hd s = CHR ''-'');
          body = (if s \<noteq> [] \<and> (hd s = CHR ''-'' \<or> hd s = CHR ''+'') then tl s else s);
          ds = takeWhile is_digit body;
          v = (if neg then - digits_value ds else digits_value ds)
      in if ds = [] then Inl (Thrown Invalid_Argument)
         else if v < - (2 ^ 31) \<or> 2 ^ 31 - 1 < v then Inl (Thrown Out_Of_Range)
         else Inr v)"

text \<open>The \<^verbatim>\<open>unsigned\<close> result of \<^verbatim>\<open>hardware_concurrency\<close> is converted to \<^verbatim>\<open>int\<close>.\<close>

definition number_of_threads :: "host \<Rightarrow> failure + int" where
  "number_of_threads h =
     (case getenv_NUM_THREADS h of
        Some nthreads \<Rightarrow> stoi nthreads
      | None \<Rightarrow> Inr (sint (hardware_concurrency h)))"

section \<open>Decimal digits\<close>

text \<open>
  The decimal digits of a natural number, without leading zeros, as \<^verbatim>\<open>std::format\<close>
  writes the integral part of a number.
\<close>

definition digit_char :: "nat \<Rightarrow> char" where
  "digit_char d = ''0123456789'' ! d"

fun digits :: "nat \<Rightarrow> string" where
  "digits n = (if n < 10 then [digit_char n] else digits (n div 10) @ [digit_char (n mod 10)])"

declare digits.simps [simp del]

text \<open>
  The decimal numeral of an integer, as a user writes a worker count into the
  environment: a minus sign for a negative number, then the digits without leading
  zeros. This definition is not part of the program; it states which strings are
  meant by a value that parses as an integer.
\<close>

definition decimal_string :: "int \<Rightarrow> string" where
  "decimal_string n = (if n < 0 then ''-'' else []) @ digits (nat \<bar>n\<bar>)"

section \<open>Floating-point numbers: \<^verbatim>\<open>double\<close>, \<^verbatim>\<open>float\<close> and \<^verbatim>\<open>{:.1f}\<close>\<close>

text \<open>
  \<^verbatim>\<open>Stats::min()\<close>, \<^verbatim>\<open>max()\<close> and \<^verbatim>\<open>avg()\<close> compute in \<^verbatim>\<open>double\<close> and return a
  \<^verbatim>\<open>float\<close>: the binary64 and binary32 formats of IEC 60559, with every result rounded
  to the nearest number of the format, a tie to the one with an even significand.
  A number is its sign (\<open>True\<close> for minus), its significand and the exponent of the unit
  in its last place: \<open>Finite s m e\<close> is \<open>m * 2 ^ e\<close> with the sign \<open>s\<close>; there are the two
  infinities and NaN. A format is the number of bits of the significand and the least and
  the greatest exponent of the unit in the last place.
\<close>

datatype fp = Finite bool nat int | Infinity bool | NaN

type_synonym format = "nat \<times> int \<times> int"

definition binary64 :: format where
  "binary64 = (53, - 1074, 971)"

definition binary32 :: format where
  "binary32 = (24, - 149, 104)"

text \<open>
  \<open>bit_length n\<close> is the number of binary digits of \<open>n\<close>; \<open>floor_log2 p q\<close> is the greatest
  \<open>k\<close> with \<open>2 ^ k \<le> p / q\<close>, for positive \<open>p\<close> and \<open>q\<close>; \<open>nearest_even p q\<close> is the
  integer nearest to \<open>p / q\<close>, the even one of the two in a tie.
\<close>

fun bit_length :: "nat \<Rightarrow> nat" where
  "bit_length n = (if n = 0 then 0 else Suc (bit_length (n div 2)))"

declare bit_length.simps [simp del]

definition floor_log2 :: "nat \<Rightarrow> nat \<Rightarrow> int" where
  "floor_log2 p q =
     (let k = int (bit_length p) - int (bit_length q)
      in if q * 2 ^ nat k \<le> p * 2 ^ nat (- k) then k else k - 1)"

definition nearest_even :: "nat \<Rightarrow> nat \<Rightarrow> nat" where
  "nearest_even p q =
     (let f = p div q; r = p mod q
      in if 2 * r < q \<or> (2 * r = q \<and> even f) then f else f + 1)"

text \<open>
  Rounding the positive rational \<open>p / q\<close> with the sign \<open>s\<close> to a format: the exponent
  is the one that gives the significand its full number of bits, or the least one of
  the format (a subnormal number, or zero); a result beyond the greatest finite number
  is an infinity.
\<close>

definition round_fp :: "format \<Rightarrow> bool \<Rightarrow> nat \<Rightarrow> nat \<Rightarrow> fp" where
  "round_fp fmt s p q =
     (if p = 0 then Finite s 0 0
      else
        let e = max (fst (snd fmt)) (floor_log2 p q - (int (fst fmt) - 1));
            m = nearest_even (p * 2 ^ nat (- e)) (q * 2 ^ nat e)
        in if snd (snd fmt) < e \<or> (e = snd (snd fmt) \<and> m = 2 ^ fst fmt) then Infinity s
           else Finite s m e)"

text \<open>
  The arithmetic of the three functions: the conversion of an integer to \<^verbatim>\<open>double\<close>,
  the division of \<^verbatim>\<open>double\<close> values (a zero divisor gives an infinity, or NaN for
  \<open>0 / 0\<close>), and the narrowing of a \<^verbatim>\<open>double\<close> to \<^verbatim>\<open>float\<close>.
\<close>

definition double_of_int :: "int \<Rightarrow> fp" where
  "double_of_int i = round_fp binary64 (i < 0) (nat \<bar>i\<bar>) 1"

fun fp_div :: "format \<Rightarrow> fp \<Rightarrow> fp \<Rightarrow> fp" where
  "fp_div fmt (Finite s m e) (Finite t n f) =
     (if n = 0 then (if m = 0 then NaN else Infinity (s \<noteq> t))
      else round_fp fmt (s \<noteq> t) (m * 2 ^ nat (e - f)) (n * 2 ^ nat (f - e)))"
| "fp_div fmt (Finite s m e) (Infinity t) = Finite (s \<noteq> t) 0 0"
| "fp_div fmt (Infinity s) (Finite t n f) = Infinity (s \<noteq> t)"
| "fp_div fmt (Infinity s) (Infinity t) = NaN"
| "fp_div fmt NaN b = NaN"
| "fp_div fmt a NaN = NaN"

fun float_of_double :: "fp \<Rightarrow> fp" where
  "float_of_double (Finite s m e) = round_fp binary32 s (m * 2 ^ nat e) (2 ^ nat (- e))"
| "float_of_double (Infinity s) = Infinity s"
| "float_of_double NaN = NaN"

text \<open>
  The literal \<^verbatim>\<open>10.0\<close>, and the three functions of \<^verbatim>\<open>Stats\<close>: \<^verbatim>\<open>min_ / 10.0\<close> and
  \<^verbatim>\<open>max_ / 10.0\<close>, narrowed by the return type, and
  \<^verbatim>\<open>static_cast<float>(sum_ / 10.0 / count_)\<close>.
\<close>

definition double_10 :: fp where
  "double_10 = Finite False 5 1"

definition Stats_min :: "stats \<Rightarrow> fp" where
  "Stats_min s = float_of_double (fp_div binary64 (double_of_int (sint (st_min s))) double_10)"

definition Stats_max :: "stats \<Rightarrow> fp" where
  "Stats_max s = float_of_double (fp_div binary64 (double_of_int (sint (st_max s))) double_10)"

definition Stats_avg :: "stats \<Rightarrow> fp" where
  "Stats_avg s =
     float_of_double
       (fp_div binary64 (fp_div binary64 (double_of_int (sint (st_sum s))) double_10)
          (double_of_int (sint (st_count s))))"

text \<open>
  \<^verbatim>\<open>{:.1f}\<close> writes a finite number with one digit behind the point: the exact value of
  the \<^verbatim>\<open>float\<close> rounded to the nearest tenth, a tie to the even one, with a minus sign
  whenever the sign of the number is minus (also in front of \<open>0.0\<close>). \<open>one_decimal s t\<close>
  is the numeral of \<open>t\<close> tenths with the sign \<open>s\<close>. An infinity is written \<open>inf\<close>. A NaN is
  written \<open>nan\<close> or \<open>-nan\<close>, by its sign bit, which the platform chooses when \<open>0.0 / 0\<close>
  produces it: the item \<open>Nan_text\<close> stands for that text.
\<close>

datatype out_item = Text string | Nan_text

definition one_decimal :: "bool \<Rightarrow> nat \<Rightarrow> string" where
  "one_decimal s t =
     (if s then ''-'' else []) @ digits (t div 10) @ ''.'' @ [digit_char (t mod 10)]"

fun fixed1 :: "fp \<Rightarrow> out_item" where
  "fixed1 (Finite s m e) =
     Text (one_decimal s (nearest_even (10 * m * 2 ^ nat e) (2 ^ nat (- e))))"
| "fixed1 (Infinity s) = Text ((if s then ''-'' else []) @ ''inf'')"
| "fixed1 NaN = Nan_text"

text \<open>
  The formatter of \<^verbatim>\<open>Stats\<close> prints \<^verbatim>\<open>min()\<close>, \<^verbatim>\<open>avg()\<close> and \<^verbatim>\<open>max()\<close> with
  \<^verbatim>\<open>{:.1f}/{:.1f}/{:.1f}\<close>.
\<close>

definition format_stats :: "stats \<Rightarrow> out_item list" where
  "format_stats obj =
     [fixed1 (Stats_min obj), Text ''/'', fixed1 (Stats_avg obj), Text ''/'',
      fixed1 (Stats_max obj)]"

section \<open>Segmenter: \<^verbatim>\<open>split_input\<close>\<close>

text \<open>
  One round of the loop of \<^verbatim>\<open>split_input\<close>: the segment of index \<open>i\<close>. The bounds
  \<^verbatim>\<open>start\<close> and \<^verbatim>\<open>end\<close> are \<^verbatim>\<open>size_t\<close> values, so products, sums and differences
  are taken modulo \<open>2 ^ 64\<close>; \<^verbatim>\<open>data[start - 1]\<close> and \<^verbatim>\<open>data[end - 1]\<close> are reads
  through \<^verbatim>\<open>operator[]\<close>, undefined outside the view. The second operand of
  \<^verbatim>\<open>&&\<close> is evaluated only when the first holds.
\<close>

definition next_line_start :: "string_view \<Rightarrow> nat \<Rightarrow> nat \<Rightarrow> failure + nat" where
  "next_line_start data i start =
     (if 0 < i then
        (case sv_at data ((start + 2 ^ 64 - 1) mod 2 ^ 64) of
           Inl e \<Rightarrow> Inl e
         | Inr c \<Rightarrow> Inr (if c \<noteq> NL then find_plus_one (sv_find data NL start) else start))
      else Inr start)"

definition end_at_eol :: "string_view \<Rightarrow> nat \<Rightarrow> nat \<Rightarrow> nat \<Rightarrow> failure + nat" where
  "end_at_eol data chunks i end' =
     (if i < chunks then
        (case sv_at data ((end' + 2 ^ 64 - 1) mod 2 ^ 64) of
           Inl e \<Rightarrow> Inl e
         | Inr c \<Rightarrow> Inr (if c \<noteq> NL then find_plus_one (sv_find data NL end') else end'))
      else Inr end')"

definition split_segment :: "string_view \<Rightarrow> nat \<Rightarrow> nat \<Rightarrow> nat \<Rightarrow> failure + string_view" where
  "split_segment data chunks size' i =
     (let start = (i * size') mod 2 ^ 64;
          end' = (start + size') mod 2 ^ 64
      in case next_line_start data i start of
           Inl e \<Rightarrow> Inl e
         | Inr start \<Rightarrow>
             (case end_at_eol data chunks i end' of
                Inl e \<Rightarrow> Inl e
              | Inr end' \<Rightarrow> sv_substr data start ((end' + 2 ^ 64 - start) mod 2 ^ 64)))"

function split_loop ::
  "string_view \<Rightarrow> nat \<Rightarrow> nat \<Rightarrow> nat \<Rightarrow> string_view list \<Rightarrow> failure + string_view list" where
  "split_loop data chunks size' i segments =
     (if i < chunks then
        (case split_segment data chunks size' i of
           Inl e \<Rightarrow> Inl e
         | Inr seg \<Rightarrow> split_loop data chunks size' (i + 1) (segments[i := seg]))
      else Inr segments)"
  by pat_completeness auto
termination
  by (relation "measure (\<lambda>(data, chunks, size', i, segments). chunks - i)") auto

declare split_loop.simps [simp del]

text \<open>
  \<^verbatim>\<open>chunks\<close> is an \<^verbatim>\<open>int\<close>. A negative one is converted to a \<^verbatim>\<open>size_t\<close> beyond
  \<^verbatim>\<open>max_size()\<close>, and the constructor of the vector throws; with 0 the chunk size is a
  division by zero. The vector starts with \<^verbatim>\<open>chunks\<close> empty views.
\<close>

definition split_input :: "string_view \<Rightarrow> int \<Rightarrow> failure + string_view list" where
  "split_input data chunks =
     (if chunks < 0 then Inl (Thrown Length_Error)
      else if chunks = 0 then Inl (Undefined Division_By_Zero)
      else
        let segments = replicate (nat chunks) \<lparr>sv_ptr = 0, sv_chars = []\<rparr>;
            size' = ((sv_size data + nat chunks - 1) mod 2 ^ 64) div nat chunks
        in split_loop data (nat chunks) size' 0 segments)"

section \<open>Fast value parser: \<^verbatim>\<open>get_temperature\<close>\<close>

text \<open>
  A \<^verbatim>\<open>char\<close> operand is promoted to \<^verbatim>\<open>int\<close>; \<^verbatim>\<open>char\<close> is taken as signed, as
  on x86-64 (for the bytes of a decimal number, all below 128, the signedness makes no
  difference). The arithmetic is that of \<^verbatim>\<open>int\<close> (the values stay far inside its
  range), and the result is narrowed to \<^verbatim>\<open>int16_t\<close> on return.
\<close>

definition char_int :: "char \<Rightarrow> int" where
  "char_int c = sint (of_char c :: 8 word)"

definition get_temperature :: "string_view \<Rightarrow> failure + 16 word" where
  "get_temperature value =
     (case sv_at value 0 of
        Inl e \<Rightarrow> Inl e
      | Inr c \<Rightarrow>
          (case (if c = CHR ''-'' then map_sum id (Pair (- 1)) (sv_remove_prefix value 1)
                 else Inr (1, value)) of
             Inl e \<Rightarrow> Inl e
           | Inr (sign, value) \<Rightarrow>
               if sv_size value = 3 then
                 (case (sv_at value 0, sv_at value 2) of
                    (Inr v0, Inr v2) \<Rightarrow>
                      Inr (word_of_int (sign * (10 * char_int v0 + char_int v2 - char_int CHR ''0'' * 11)))
                  | _ \<Rightarrow> Inl (Undefined Read_Out_Of_Bounds))
               else
                 (case (sv_at value 0, sv_at value 1, sv_at value 3) of
                    (Inr v0, Inr v1, Inr v3) \<Rightarrow>
                      Inr (word_of_int (sign * (100 * char_int v0 + 10 * char_int v1 + char_int v3
                             - char_int CHR ''0'' * 111)))
                  | _ \<Rightarrow> Inl (Undefined Read_Out_Of_Bounds))))"

text \<open>
  The decimal strings of the value parser's contract, for the round trip. This
  definition follows the words of the specification, not the source: an optional sign,
  one or two integer digits (\<open>tens\<close> is \<open>None\<close> when there is one), a decimal point and
  one fractional digit; \<open>shape_value\<close> is the value times 10 that such a string denotes.
  \<open>encode_temperature\<close> writes a scaled integer in that shape, without a leading zero
  before a units digit.
\<close>

definition shape_string :: "bool \<Rightarrow> nat option \<Rightarrow> nat \<Rightarrow> nat \<Rightarrow> string" where
  "shape_string neg tens units tenth =
     (if neg then ''-'' else []) @
     (case tens of None \<Rightarrow> [] | Some t \<Rightarrow> [digit_char t]) @
     [digit_char units, CHR ''.'', digit_char tenth]"

definition shape_value :: "bool \<Rightarrow> nat option \<Rightarrow> nat \<Rightarrow> nat \<Rightarrow> int" where
  "shape_value neg tens units tenth =
     (if neg then - 1 else 1) *
     (100 * (case tens of None \<Rightarrow> 0 | Some t \<Rightarrow> int t) + 10 * int units + int tenth)"

definition encode_temperature :: "int \<Rightarrow> string" where
  "encode_temperature v =
     (let a = nat \<bar>v\<bar>
      in shape_string (v < 0) (if a div 100 = 0 then None else Some (a div 100))
           (a div 10 mod 10) (a mod 10))"

section \<open>Local aggregator: \<^verbatim>\<open>process_segment\<close>\<close>

text \<open>
  The body of the loop over the lines of a segment. The separator is searched with
  \<^verbatim>\<open>line.find(data_sep)\<close>; the name is \<^verbatim>\<open>line.substr(0, sep)\<close> and the value is parsed
  from \<^verbatim>\<open>line.substr(sep + 1)\<close>, whatever the search returned. An absent name is
  inserted with \<^verbatim>\<open>Stats{}\<close>, then the entry is updated.
\<close>

definition data_sep :: char where
  "data_sep = CHR '';''"

definition add_line :: "StatsMap \<Rightarrow> string_view \<Rightarrow> failure + StatsMap" where
  "add_line cities line =
     (let sep = sv_find line data_sep 0
      in case sv_substr line 0 (case sep of None \<Rightarrow> npos | Some k \<Rightarrow> k) of
           Inl e \<Rightarrow> Inl e
         | Inr city \<Rightarrow>
             (case sv_substr line (find_plus_one sep) npos of
                Inl e \<Rightarrow> Inl e
              | Inr value \<Rightarrow>
                  (case get_temperature value of
                     Inl e \<Rightarrow> Inl e
                   | Inr temp \<Rightarrow>
                       let cur = (case map_of cities (sv_chars city) of
                                    None \<Rightarrow> Stats | Some s \<Rightarrow> s)
                       in Inr (AList.update (sv_chars city) (update cur temp) cities))))"

function process_lines :: "reader \<Rightarrow> StatsMap \<Rightarrow> failure + StatsMap" where
  "process_lines r cities =
     (case getline r of
        Inl e \<Rightarrow> Inl e
      | Inr None \<Rightarrow> Inr cities
      | Inr (Some (line, r')) \<Rightarrow>
          (case add_line cities line of
             Inl e \<Rightarrow> Inl e
           | Inr cities' \<Rightarrow> process_lines r' cities'))"
  by pat_completeness auto
termination
proof (relation "measure (\<lambda>(r, cities). sv_size (r_data r) - r_pos r)")
  show "wf (measure (\<lambda>(r, cities). sv_size (r_data r) - r_pos r))" by simp
next
  fix r :: reader and cities :: StatsMap and x2 x2a x y x2b
  assume "getline r = Inr x2" "x2 = Some x2a" "(x, y) = x2a"
  then have "getline r = Inr (Some (x, y))" by simp
  from getline_advances [OF this]
  show "((y, x2b), (r, cities)) \<in> measure (\<lambda>(r, cities). sv_size (r_data r) - r_pos r)"
    by simp
qed

declare process_lines.simps [simp del]

definition process_segment :: "string_view \<Rightarrow> failure + StatsMap" where
  "process_segment data = process_lines (Reader data) make_map"

section \<open>Merger: \<^verbatim>\<open>merge_results\<close>\<close>

text \<open>
  \<^verbatim>\<open>merged[city].merge(stats)\<close>: \<^verbatim>\<open>operator[]\<close> inserts \<^verbatim>\<open>Stats{}\<close> under an absent
  name before the merge.
\<close>

definition merge_entry :: "string \<times> stats \<Rightarrow> StatsMap \<Rightarrow> StatsMap" where
  "merge_entry e merged =
     (let cur = (case map_of merged (fst e) of None \<Rightarrow> Stats | Some s \<Rightarrow> s)
      in AList.update (fst e) (merge cur (snd e)) merged)"

definition merge_map :: "StatsMap \<Rightarrow> StatsMap \<Rightarrow> StatsMap" where
  "merge_map cities merged = fold merge_entry cities merged"

fun merge_results :: "StatsMap list \<Rightarrow> failure + StatsMap" where
  "merge_results [] = Inl (Undefined Front_Of_Empty_Span)"
| "merge_results (front # rest) = Inr (fold merge_map rest front)"

section \<open>Reporter: \<^verbatim>\<open>dump_results\<close>\<close>

text \<open>
  The entries are copied into a \<^verbatim>\<open>std::map\<close>, which keeps them in the order of their
  names: the order of \<^verbatim>\<open>std::string\<close>, that is of the bytes as unsigned values, a proper
  prefix first. The first entry is printed through \<^verbatim>\<open>std::begin(sorted)\<close> without a
  test, the others behind a comma.
\<close>

definition format_entry :: "string \<times> stats \<Rightarrow> out_item list" where
  "format_entry elem = [Text (fst elem), Text ''=''] @ format_stats (snd elem)"

definition dump_results :: "StatsMap \<Rightarrow> failure + out_item list" where
  "dump_results cities =
     (case sort_key fst cities of
        [] \<Rightarrow> Inl (Undefined Deref_End_Iterator)
      | it # rest \<Rightarrow>
          Inr ([Text ''{''] @ format_entry it
               @ concat (map (\<lambda>elem. Text '', '' # format_entry elem) rest)
               @ [Text (''}'' @ [NL])]))"

section \<open>The run: \<^verbatim>\<open>process_file\<close> and \<^verbatim>\<open>main\<close>\<close>

text \<open>
  \<^verbatim>\<open>MappedFile\<close>: the constructor throws when the file cannot be opened or mapped.
  \<^verbatim>\<open>mmap\<close> refuses a length of 0, so an empty file cannot be mapped.
\<close>

definition MappedFile :: "host \<Rightarrow> string \<Rightarrow> failure + string_view" where
  "MappedFile h path =
     (case files h path of
        None \<Rightarrow> Inl (Thrown (Runtime_Error ''could not open file''))
      | Some bytes \<Rightarrow>
          if bytes = [] then Inl (Thrown (Runtime_Error ''could not memory-map file''))
          else Inr \<lparr>sv_ptr = 0, sv_chars = bytes\<rparr>)"

text \<open>
  \<^verbatim>\<open>process_all\<close> starts one thread per segment; thread \<open>i\<close> stores the map of segment
  \<open>i\<close> in \<^verbatim>\<open>results[i]\<close>, and all threads are joined before the merge. The threads share
  nothing but the bytes they read, so the results are those of the segments taken in turn.
\<close>

fun collect :: "(failure + 'a) list \<Rightarrow> failure + 'a list" where
  "collect [] = Inr []"
| "collect (Inl e # rs) = Inl e"
| "collect (Inr x # rs) = (case collect rs of Inl e \<Rightarrow> Inl e | Inr xs \<Rightarrow> Inr (x # xs))"

definition process_all :: "string_view list \<Rightarrow> failure + StatsMap" where
  "process_all segments =
     (case collect (map process_segment segments) of
        Inl e \<Rightarrow> Inl e
      | Inr results \<Rightarrow> merge_results results)"

definition process_file :: "host \<Rightarrow> string \<Rightarrow> failure + out_item list" where
  "process_file h data_file =
     (case MappedFile h data_file of
        Inl e \<Rightarrow> Inl e
      | Inr file \<Rightarrow>
          (case number_of_threads h of
             Inl e \<Rightarrow> Inl e
           | Inr chunks \<Rightarrow>
               (case split_input file chunks of
                  Inl e \<Rightarrow> Inl e
                | Inr segments \<Rightarrow>
                    (case process_all segments of
                       Inl e \<Rightarrow> Inl e
                     | Inr cities \<Rightarrow> dump_results cities))))"

text \<open>
  The process: its exit code and what it wrote to the two streams. \<open>argv\<close> holds the
  program name and the arguments, \<^verbatim>\<open>argc\<close> is its length. A failure inside
  \<^verbatim>\<open>process_file\<close> is not caught.
\<close>

record run =
  exit_code :: int
  stdout :: "out_item list"
  stderr :: string

definition EXIT_SUCCESS :: int where
  "EXIT_SUCCESS = 0"

definition EXIT_FAILURE :: int where
  "EXIT_FAILURE = 1"

definition main :: "host \<Rightarrow> string list \<Rightarrow> failure + run" where
  "main h argv =
     (if length argv > 2 then
        Inr \<lparr>exit_code = EXIT_FAILURE, stdout = [],
             stderr = ''usage: main [ <input_file> ]'' @ [NL]\<rparr>
      else
        (case process_file h (if length argv = 2 then argv ! 1 else ''measurements.txt'') of
           Inl e \<Rightarrow> Inl e
         | Inr out \<Rightarrow> Inr \<lparr>exit_code = EXIT_SUCCESS, stdout = out, stderr = []\<rparr>))"

text \<open>
  Two auxiliary notions for the properties of the merge, not part of the program:
  what one name holds once a map has been merged in, given what it held before and what
  the map holds for it; and the values that are present in a list of optional values.
\<close>

definition merge_option :: "stats option \<Rightarrow> stats option \<Rightarrow> stats option" where
  "merge_option acc new =
     (case new of
        None \<Rightarrow> acc
      | Some s \<Rightarrow> Some (merge (case acc of None \<Rightarrow> Stats | Some t \<Rightarrow> t) s))"



text \<open>
  An auxiliary notion for the properties of the segmenter, not part of the program: the
  position that the two adjustments of \<^verbatim>\<open>split_input\<close> compute from a tentative
  boundary \<open>p\<close>. A boundary at 0 or behind a terminator stays, any other one moves
  behind the next terminator, and to 0 when there is none (\<^verbatim>\<open>npos + 1\<close>).
\<close>

definition next_start :: "string \<Rightarrow> nat \<Rightarrow> nat" where
  "next_start d p =
     (if p = 0 \<or> d ! (p - 1) = NL then p
      else (case find_first NL (drop p d) of None \<Rightarrow> 0 | Some k \<Rightarrow> p + k + 1))"

text \<open>The view between the adjusted boundaries of chunk \<open>i\<close>, for a chunk size \<open>c\<close>.\<close>

definition segment_of :: "string_view \<Rightarrow> nat \<Rightarrow> nat \<Rightarrow> string_view" where
  "segment_of data c i =
     \<lparr>sv_ptr = sv_ptr data + next_start (sv_chars data) (i * c),
      sv_chars = take (next_start (sv_chars data) ((i + 1) * c) - next_start (sv_chars data) (i * c))
                   (drop (next_start (sv_chars data) (i * c)) (sv_chars data))\<rparr>"

section \<open>Auxiliary notions for the lines of a segment\<close>

text \<open>
  Auxiliary notions for the properties of the whole pipeline, not part of the program.
  \<open>add_lines\<close> is the loop body \<^verbatim>\<open>add_line\<close> over a list of lines; \<open>feed\<close> runs
  \<^verbatim>\<open>process_lines\<close> over a list of segments with one map, as a single worker that
  was given the segments one after the other would; \<open>parse_line\<close> is the part of
  \<^verbatim>\<open>add_line\<close> that does not touch the map. A string is \<open>terminated\<close> when it is
  empty or ends with a line terminator, \<open>enc\<close> writes lines with their terminators, and
  \<open>merged_view A B C\<close> says that \<open>C\<close> holds for every name what merging \<open>B\<close> into
  \<open>A\<close> gives.
\<close>

fun add_lines :: "string_view list \<Rightarrow> StatsMap \<Rightarrow> failure + StatsMap" where
  "add_lines [] cities = Inr cities"
| "add_lines (line # lines) cities =
     (case add_line cities line of Inl e \<Rightarrow> Inl e | Inr cities' \<Rightarrow> add_lines lines cities')"

definition terminated :: "string \<Rightarrow> bool" where
  "terminated s \<longleftrightarrow> s = [] \<or> last s = NL"

definition enc :: "string list \<Rightarrow> string" where
  "enc ls = concat (map (\<lambda>l. l @ [NL]) ls)"

definition parse_line :: "string_view \<Rightarrow> failure + (string \<times> 16 word)" where
  "parse_line line =
     (let sep = sv_find line data_sep 0
      in case sv_substr line 0 (case sep of None \<Rightarrow> npos | Some k \<Rightarrow> k) of
           Inl e \<Rightarrow> Inl e
         | Inr city \<Rightarrow>
             (case sv_substr line (find_plus_one sep) npos of
                Inl e \<Rightarrow> Inl e
              | Inr value \<Rightarrow>
                  (case get_temperature value of
                     Inl e \<Rightarrow> Inl e
                   | Inr temp \<Rightarrow> Inr (sv_chars city, temp))))"

fun feed :: "string_view list \<Rightarrow> StatsMap \<Rightarrow> failure + StatsMap" where
  "feed [] cities = Inr cities"
| "feed (s # ss) cities =
     (case process_lines (Reader s) cities of Inl e \<Rightarrow> Inl e | Inr cities' \<Rightarrow> feed ss cities')"

definition merged_view :: "StatsMap \<Rightarrow> StatsMap \<Rightarrow> StatsMap \<Rightarrow> bool" where
  "merged_view A B C \<longleftrightarrow> (\<forall>k. map_of C k = merge_option (map_of A k) (map_of B k))"

section \<open>A host for closed instances\<close>

text \<open>
  A host with four execution units and one file, \<^verbatim>\<open>measurements.txt\<close>.
\<close>

definition example_host :: "string option \<Rightarrow> string \<Rightarrow> host" where
  "example_host nthreads bytes =
     \<lparr>getenv_NUM_THREADS = nthreads, hardware_concurrency = 4,
      files = (\<lambda>path. if path = ''measurements.txt'' then Some bytes else None)\<rparr>"

section \<open>Evaluation\<close>

text \<open>
  The definitions of the model, as rewrite rules: closed instances are computed with
  them by the simplifier.
\<close>

lemma replicate_numeral: "replicate (numeral k) x = x # replicate (pred_numeral k) x"
  by (simp add: numeral_eq_Suc)

lemmas model_defs =
  main_def process_file_def MappedFile_def number_of_threads_def stoi_def is_space_def is_digit_def
  digits_value_def digit_value_def split_input_def split_loop.simps split_segment_def
  next_line_start_def end_at_eol_def sv_at_def sv_size_def sv_find_def sv_substr_def
  find_plus_one_def npos_def process_all_def process_segment_def process_lines.simps
  getline_def Reader_def make_map_def add_line_def data_sep_def get_temperature_def
  sv_remove_prefix_def char_int_def update_def Stats_def min16_def max16_def merge_def
  merge_map_def merge_entry_def dump_results_def format_entry_def
  EXIT_SUCCESS_def EXIT_FAILURE_def NL_def example_host_def Let_def word_sless_alt replicate_numeral

lemmas float_defs = binary64_def binary32_def bit_length.simps floor_log2_def nearest_even_def
  round_fp_def double_of_int_def double_10_def Stats_min_def Stats_max_def Stats_avg_def
  one_decimal_def format_stats_def digits.simps digit_char_def Let_def

section \<open>Properties of the statistics\<close>

lemma sint_min16: "sint (min16 a b) = min (sint a) (sint b)"
  by (simp add: min16_def word_sless_alt min_def)

lemma sint_max16: "sint (max16 a b) = max (sint a) (sint b)"
  by (simp add: max16_def word_sless_alt max_def)

lemma sint_Stats: "sint (st_min Stats) = 32767" "sint (st_max Stats) = - 32768"
  by (simp_all add: Stats_def)

lemma reachable_bounds:
  "reachable s vs \<Longrightarrow> v \<in> set vs \<Longrightarrow> sint (st_min s) \<le> sint v \<and> sint v \<le> sint (st_max s)"
proof (induction arbitrary: v rule: reachable.induct)
  case initial
  then show ?case by simp
next
  case (updated s vs t)
  then show ?case
    by (auto simp: update_def sint_min16 sint_max16 min_le_iff_disj le_max_iff_disj)
next
  case (merged s vs s' ws)
  then show ?case
    by (auto simp: merge_def sint_min16 sint_max16 min_le_iff_disj le_max_iff_disj)
qed

lemma reachable_sum_count:
  "reachable s vs \<Longrightarrow> st_sum s = sum_list (map scast vs) \<and> st_count s = of_nat (length vs)"
  by (induction rule: reachable.induct) (simp_all add: Stats_def update_def merge_def)

lemma sint_16_bounds: "- 32768 \<le> sint (v :: 16 word)" "sint (v :: 16 word) \<le> 32767"
  using sint_ge [of v] sint_lt [of v] by simp_all

lemma sum_list_sint_bounds:
  "- 32768 * int (length vs) \<le> (\<Sum>v\<leftarrow>vs. sint (v :: 16 word)) \<and>
   (\<Sum>v\<leftarrow>vs. sint v) \<le> 32767 * int (length vs)"
proof (induction vs)
  case Nil
  then show ?case by simp
next
  case (Cons v vs)
  with sint_16_bounds [of v] show ?case by (simp add: algebra_simps)
qed

lemma sint_scast_16_64: "sint (scast (v :: 16 word) :: 64 word) = sint v"
  by (rule sint_up_scast) (simp add: is_up)

lemma sum_list_scast_of_int:
  "(sum_list (map scast (vs :: 16 word list)) :: 64 word) = word_of_int (\<Sum>v\<leftarrow>vs. sint v)"
proof (induction vs)
  case Nil
  then show ?case by simp
next
  case (Cons v vs)
  have "(scast v :: 64 word) = word_of_int (sint v)"
    by simp
  with Cons show ?case by simp
qed

lemma sint_sum_small:
  assumes "length (vs :: 16 word list) < 2 ^ 31"
  shows "sint (sum_list (map scast vs) :: 64 word) = (\<Sum>v\<leftarrow>vs. sint v)"
proof -
  from assms have "int (length vs) < 2 ^ 31"
    by (metis of_nat_less_iff of_nat_numeral of_nat_power)
  with sum_list_sint_bounds [of vs]
  have "- (2 ^ 63) \<le> (\<Sum>v\<leftarrow>vs. sint v)" "(\<Sum>v\<leftarrow>vs. sint v) < 2 ^ 63"
    by simp_all
  then show ?thesis
    by (simp add: sum_list_scast_of_int sint_sbintrunc' signed_take_bit_int_eq_self)
qed

lemma sint_count_small:
  assumes "n < 2 ^ 31"
  shows "sint (of_nat n :: 32 word) = int n"
proof -
  from assms have "int n < 2 ^ 31"
    by (metis of_nat_less_iff of_nat_numeral of_nat_power)
  then show ?thesis
    by (simp add: signed_of_nat signed_take_bit_int_eq_self)
qed

lemma reachable_foldl: "reachable (foldl update Stats vs) vs"
  by (induction vs rule: rev_induct) (auto intro: reachable.intros)

lemma foldl_update_ones:
  "foldl update Stats (replicate (Suc n) 1) =
     \<lparr>st_min = 1, st_max = 1, st_sum = of_nat (Suc n), st_count = of_nat (Suc n)\<rparr>"
proof (induction n)
  case 0
  show ?case
    by (simp add: update_def Stats_def min16_def max16_def word_sless_alt)
next
  case (Suc n)
  have "replicate (Suc (Suc n)) (1 :: 16 word) = replicate (Suc n) 1 @ [1]"
    using replicate_append_same [of "Suc n" "1 :: 16 word"] by simp
  with Suc show ?case
    by (simp add: update_def min16_def max16_def word_sless_alt)
qed

text \<open>
  Claim C7, as stated, fails: the count is an \<^verbatim>\<open>int32_t\<close>. After \<open>2 ^ 31\<close> updates
  with the value 1 the sum is \<open>2 ^ 31\<close> and the count field reads \<open>- (2 ^ 31)\<close>, not
  the number of updates.
\<close>

theorem stats_count_wraps_counterexample:
  "reachable \<lparr>st_min = 1, st_max = 1, st_sum = 2147483648, st_count = 0x80000000\<rparr>
     (replicate 2147483648 1)
   \<and> length (replicate 2147483648 (1 :: 16 word)) = 2147483648
   \<and> sint (st_count \<lparr>st_min = 1, st_max = 1, st_sum = 2147483648, st_count = 0x80000000\<rparr>) =
       - 2147483648
   \<and> sint (st_sum \<lparr>st_min = 1, st_max = 1, st_sum = 2147483648, st_count = 0x80000000\<rparr>) =
       2147483648"
proof -
  have n: "(2147483648 :: nat) = Suc 2147483647"
    by simp
  have "foldl update Stats (replicate 2147483648 1) =
      \<lparr>st_min = 1, st_max = 1, st_sum = 2147483648, st_count = 0x80000000\<rparr>"
    unfolding n foldl_update_ones by simp
  with reachable_foldl [of "replicate 2147483648 1"] show ?thesis
    by simp
qed

text \<open>
  Claim C7, amended with the bound that the count field needs. A Statistics value reached from
  the initial state by updates and merges, \<open>vs\<close> being the values applied on the way:
  \<open>min \<le> max\<close> (as signed 16-bit values) whenever \<open>count > 0\<close>; \<open>sum\<close> is the sum of
  the applied values and \<open>count\<close> their number modulo \<open>2 ^ 64\<close> and \<open>2 ^ 32\<close>, that is
  as values of the 64-bit and 32-bit fields, and they are that sum and that number as
  integers whenever fewer than \<open>2 ^ 31\<close> values were applied (the range of the count
  field). The initial state is \<open>min = 32767\<close>, \<open>max = -32768\<close>, \<open>sum = 0\<close>,
  \<open>count = 0\<close>.
\<close>

theorem stats_invariant:
  assumes "reachable s vs"
  shows "(0 <s st_count s \<longrightarrow> st_min s \<le>s st_max s)
    \<and> st_sum s = sum_list (map scast vs)
    \<and> st_count s = of_nat (length vs)
    \<and> (length vs < 2 ^ 31 \<longrightarrow>
          sint (st_sum s) = (\<Sum>v\<leftarrow>vs. sint v) \<and> sint (st_count s) = int (length vs))
    \<and> sint (st_min Stats) = 32767 \<and> sint (st_max Stats) = - 32768
    \<and> st_sum Stats = 0 \<and> st_count Stats = 0"
proof -
  note sc = reachable_sum_count [OF assms]
  have "st_min s \<le>s st_max s" if "0 <s st_count s"
  proof -
    from that sc have "vs \<noteq> []"
      by (auto simp: word_sless_alt)
    then obtain v where "v \<in> set vs"
      by (cases vs) auto
    from reachable_bounds [OF assms this] show ?thesis
      by (simp add: word_sle_eq)
  qed
  moreover have "sint (st_sum s) = (\<Sum>v\<leftarrow>vs. sint v) \<and> sint (st_count s) = int (length vs)"
    if "length vs < 2 ^ 31"
    using sc sint_sum_small [OF that] sint_count_small [OF that] by simp
  ultimately show ?thesis
    using sc by (simp add: sint_Stats) (simp add: Stats_def)
qed

theorem stats_invariant_witness:
  "reachable (update (update Stats 120) (- 35)) [120, - 35]
   \<and> 0 <s st_count (update (update Stats 120) (- 35))
   \<and> st_min (update (update Stats 120) (- 35)) \<le>s st_max (update (update Stats 120) (- 35))
   \<and> sint (st_sum (update (update Stats 120) (- 35))) = 85
   \<and> sint (st_count (update (update Stats 120) (- 35))) = 2"
proof -
  have "reachable (update (update Stats 120) (- 35)) (([] @ [120]) @ [- 35])"
    by (intro reachable.intros)
  then have r: "reachable (update (update Stats 120) (- 35)) [120, - 35]"
    by simp
  have c: "0 <s st_count (update (update Stats 120) (- 35))"
    by (simp add: update_def Stats_def word_sless_alt)
  from stats_invariant [OF r] r c show ?thesis
    by simp
qed

section \<open>Properties of the value parser\<close>

lemma digit_cases: "d < 10 \<Longrightarrow> d \<in> {0, 1, 2, 3, 4, 5, 6, 7, 8, 9 :: nat}"
  by auto

lemma char_int_digit: "d < 10 \<Longrightarrow> char_int (digit_char d) = 48 + int d"
  using digit_cases [of d] by (auto simp: char_int_def digit_char_def)

lemma digit_not_minus: "d < 10 \<Longrightarrow> digit_char d \<noteq> CHR ''-''"
  using digit_cases [of d] by (auto simp: digit_char_def)

lemma char_int_zero: "char_int CHR ''0'' = 48"
  by (simp add: char_int_def)

lemma sint_small_16: "- 999 \<le> x \<Longrightarrow> x \<le> 999 \<Longrightarrow> sint (word_of_int x :: 16 word) = x"
  by (simp add: sint_sbintrunc' signed_take_bit_int_eq_self)

lemma get_temperature_shape:
  assumes "units < 10" "tenth < 10" "case tens of None \<Rightarrow> True | Some t \<Rightarrow> t < 10"
  shows "get_temperature \<lparr>sv_ptr = p, sv_chars = shape_string neg tens units tenth\<rparr> =
    Inr (word_of_int (shape_value neg tens units tenth))"
proof (cases tens)
  case None
  then show ?thesis
    using assms
    by (cases neg)
      (simp_all add: get_temperature_def shape_string_def shape_value_def sv_at_def sv_size_def
        sv_remove_prefix_def digit_not_minus char_int_digit char_int_zero)
next
  case (Some t)
  then show ?thesis
    using assms
    by (cases neg)
      (simp_all add: get_temperature_def shape_string_def shape_value_def sv_at_def sv_size_def
        sv_remove_prefix_def digit_not_minus char_int_digit char_int_zero)
qed

lemma decimal_digits: "100 * (a div 100) + 10 * (a div 10 mod 10) + a mod 10 = (a :: nat)"
proof -
  have h: "a div 100 = a div 10 div 10"
    by (simp add: div_mult2_eq)
  have t: "10 * (a div 10 div 10) + a div 10 mod 10 = a div 10"
    by simp
  have u: "10 * (a div 10) + a mod 10 = a"
    by simp
  from t u show ?thesis
    unfolding h by arith
qed

lemma encode_value:
  assumes "- 999 \<le> v" "v \<le> 999" and a: "a = nat \<bar>v\<bar>"
  shows "shape_value (v < 0) (if a div 100 = 0 then None else Some (a div 100))
           (a div 10 mod 10) (a mod 10) = v"
proof -
  have "int (100 * (a div 100) + 10 * (a div 10 mod 10) + a mod 10) = int a"
    by (simp only: decimal_digits)
  then have s: "100 * int (a div 100) + 10 * int (a div 10 mod 10) + int (a mod 10) = \<bar>v\<bar>"
    using a by simp
  show ?thesis
  proof (cases "a div 100 = 0")
    case True
    with s show ?thesis by (simp add: shape_value_def)
  next
    case False
    with s show ?thesis by (simp add: shape_value_def)
  qed
qed

text \<open>
  Claim C3. For every scaled integer \<open>v\<close> from \<open>-999\<close> to \<open>999\<close>, written as a decimal
  string of the shape sign, one or two integer digits, point, one fractional digit, the
  value parser returns exactly \<open>v\<close>.
\<close>

theorem get_temperature_round_trip:
  assumes "- 999 \<le> v" "v \<le> 999"
  shows "map_sum id sint (get_temperature \<lparr>sv_ptr = p, sv_chars = encode_temperature v\<rparr>) = Inr v"
proof -
  define a where "a = nat \<bar>v\<bar>"
  define tens where "tens = (if a div 100 = 0 then None else Some (a div 100))"
  from assms have "a < 1000" by (simp add: a_def)
  then have d: "a div 10 mod 10 < 10" "a mod 10 < 10" "a div 100 < 10"
    by simp_all
  from d(3) have t: "case tens of None \<Rightarrow> True | Some t \<Rightarrow> t < 10"
    by (simp add: tens_def)
  have e: "encode_temperature v = shape_string (v < 0) tens (a div 10 mod 10) (a mod 10)"
    by (simp add: encode_temperature_def a_def tens_def Let_def)
  have "shape_value (v < 0) tens (a div 10 mod 10) (a mod 10) = v"
    unfolding tens_def by (rule encode_value [OF assms a_def])
  with get_temperature_shape [OF d(1,2) t, of p "v < 0"]
  have "get_temperature \<lparr>sv_ptr = p, sv_chars = encode_temperature v\<rparr> = Inr (word_of_int v)"
    by (simp add: e)
  then show ?thesis
    using assms by (simp add: sint_small_16)
qed

theorem get_temperature_round_trip_witness:
  "- 999 \<le> (- 35 :: int) \<and> (- 35 :: int) \<le> 999 \<and> encode_temperature (- 35) = ''-3.5''
    \<and> map_sum id sint (get_temperature \<lparr>sv_ptr = 7, sv_chars = ''-3.5''\<rparr>) = Inr (- 35)"
proof -
  have e: "encode_temperature (- 35) = ''-3.5''"
    by (simp add: encode_temperature_def shape_string_def digit_char_def)
  from get_temperature_round_trip [of "- 35" 7] e show ?thesis
    by simp
qed

section \<open>Properties of the worker count\<close>

lemma is_digit_digit_char: "d < 10 \<Longrightarrow> is_digit (digit_char d)"
  using digit_cases [of d] by (auto simp: is_digit_def digit_char_def)

lemma digit_value_digit_char: "d < 10 \<Longrightarrow> digit_value (digit_char d) = int d"
  using digit_cases [of d] by (auto simp: digit_value_def digit_char_def)

lemma digits_all_digit: "\<forall>c\<in>set (digits n). is_digit c"
proof (induction n rule: digits.induct)
  case (1 n)
  show ?case
  proof (cases "n < 10")
    case True
    then show ?thesis
      by (subst digits.simps) (simp add: is_digit_digit_char)
  next
    case False
    with 1 show ?thesis
      by (subst digits.simps) (simp add: is_digit_digit_char)
  qed
qed

lemma digits_nonempty: "digits n \<noteq> []"
  by (subst digits.simps) simp

lemma digits_value_snoc: "digits_value (ds @ [c]) = 10 * digits_value ds + digit_value c"
  by (simp add: digits_value_def)

lemma digits_value_digits: "digits_value (digits n) = int n"
proof (induction n rule: digits.induct)
  case (1 n)
  show ?case
  proof (cases "n < 10")
    case True
    then show ?thesis
      by (subst digits.simps) (simp add: digits_value_def digit_value_digit_char)
  next
    case False
    have "int n = 10 * int (n div 10) + int (n mod 10)"
      by (metis mult_div_mod_eq of_nat_add of_nat_mult of_nat_numeral)
    with False 1 show ?thesis
      by (subst digits.simps) (simp add: digits_value_snoc digit_value_digit_char)
  qed
qed

lemma is_digit_not_space: "is_digit c \<Longrightarrow> \<not> is_space c"
  by (auto simp: is_digit_def is_space_def)

lemma is_digit_not_sign: "is_digit c \<Longrightarrow> c \<noteq> CHR ''-'' \<and> c \<noteq> CHR ''+''"
  by (auto simp: is_digit_def)

lemma stoi_decimal_string:
  assumes "- (2 ^ 31) \<le> n" "n < 2 ^ 31"
  shows "stoi (decimal_string n) = Inr n"
proof -
  define ds where "ds = digits (nat \<bar>n\<bar>)"
  have ne: "ds \<noteq> []"
    by (simp add: ds_def digits_nonempty)
  have all: "\<forall>c\<in>set ds. is_digit c"
    by (simp add: ds_def digits_all_digit)
  have tw: "takeWhile is_digit ds = ds"
    using all by simp
  have v: "digits_value ds = \<bar>n\<bar>"
    by (simp add: ds_def digits_value_digits)
  from ne all have c: "is_digit (hd ds)"
    by simp
  note ns = is_digit_not_space [OF c] is_digit_not_sign [OF c]
  have dw: "dropWhile is_space ds = ds"
    using ne ns(1) by (cases ds) simp_all
  show ?thesis
  proof (cases "n < 0")
    case True
    have sp: "\<not> is_space CHR ''-''"
      by (simp add: is_space_def)
    have s: "decimal_string n = CHR ''-'' # ds"
      using True by (simp add: decimal_string_def ds_def)
    have "- digits_value ds = n"
      using True v by simp
    then show ?thesis
      unfolding stoi_def Let_def s using assms sp by (simp add: tw ne)
  next
    case False
    have s: "decimal_string n = ds"
      using False by (simp add: decimal_string_def ds_def)
    have "digits_value ds = n"
      using False v by simp
    then show ?thesis
      unfolding stoi_def Let_def s dw using assms ns ne by (simp add: tw)
  qed
qed

lemma set_tl_subset: "set (tl xs) \<subseteq> set xs"
  by (cases xs) auto

lemma stoi_no_digit:
  assumes "\<forall>c\<in>set s. \<not> is_digit c"
  shows "stoi s = Inl (Thrown Invalid_Argument)"
proof -
  define t where "t = dropWhile is_space s"
  have t: "\<forall>c\<in>set t. \<not> is_digit c"
    using assms unfolding t_def by (meson set_dropWhileD)
  have nil: "takeWhile is_digit b = []" if "set b \<subseteq> set t" for b
    using that t by (cases b) auto
  have "takeWhile is_digit t = []" "takeWhile is_digit (tl t) = []"
    using nil [of t] nil [OF set_tl_subset] by simp_all
  then show ?thesis
    unfolding stoi_def Let_def t_def [symmetric] by simp
qed

text \<open>
  Claim C6, as stated, fails: a value of \<^verbatim>\<open>NUM_THREADS\<close> that is not a number does not
  give the default. \<^verbatim>\<open>std::stoi\<close> throws \<^verbatim>\<open>std::invalid_argument\<close>, and nothing
  catches it.
\<close>

theorem number_of_threads_unparsable_counterexample:
  "number_of_threads (example_host (Some ''four'') []) = Inl (Thrown Invalid_Argument)
   \<and> number_of_threads (example_host (Some ''four'') []) \<noteq>
       Inr (sint (hardware_concurrency (example_host (Some ''four'') [])))"
  by (simp add: number_of_threads_def example_host_def stoi_def is_space_def is_digit_def)

text \<open>
  Claim C6, amended. Without the variable the worker count is the number of execution
  units of the host; with the variable set to the decimal numeral of an \<^verbatim>\<open>int\<close> it is
  that integer; with the variable set to a string without any digit the conversion
  throws \<^verbatim>\<open>std::invalid_argument\<close>.
\<close>

theorem number_of_threads_cases:
  "(getenv_NUM_THREADS h = None \<longrightarrow> number_of_threads h = Inr (sint (hardware_concurrency h)))
   \<and> (\<forall>n. - (2 ^ 31) \<le> n \<and> n < 2 ^ 31 \<and> getenv_NUM_THREADS h = Some (decimal_string n) \<longrightarrow>
          number_of_threads h = Inr n)
   \<and> (\<forall>s. getenv_NUM_THREADS h = Some s \<and> (\<forall>c\<in>set s. \<not> is_digit c) \<longrightarrow>
          number_of_threads h = Inl (Thrown Invalid_Argument))"
  by (simp add: number_of_threads_def stoi_decimal_string stoi_no_digit)

theorem number_of_threads_cases_witness:
  "number_of_threads (example_host None []) = Inr 4
   \<and> decimal_string 8 = ''8'' \<and> number_of_threads (example_host (Some ''8'') []) = Inr 8
   \<and> number_of_threads (example_host (Some '''') []) = Inl (Thrown Invalid_Argument)"
proof -
  have d: "decimal_string 8 = ''8''"
    by (simp add: decimal_string_def digits.simps digit_char_def)
  have e: "getenv_NUM_THREADS (example_host None []) = None"
    "getenv_NUM_THREADS (example_host (Some ''8'') []) = Some (decimal_string 8)"
    "getenv_NUM_THREADS (example_host (Some '''') []) = Some ''''"
    "sint (hardware_concurrency (example_host None [])) = 4"
    by (simp_all add: example_host_def d)
  from number_of_threads_cases [of "example_host None []"] e(1,4)
  have 1: "number_of_threads (example_host None []) = Inr 4"
    by simp
  from number_of_threads_cases [of "example_host (Some ''8'') []"] e(2)
  have 2: "number_of_threads (example_host (Some ''8'') []) = Inr 8"
    by simp
  from number_of_threads_cases [of "example_host (Some '''') []"] e(3)
  have 3: "number_of_threads (example_host (Some '''') []) = Inl (Thrown Invalid_Argument)"
    by simp
  from 1 2 3 d show ?thesis
    by simp
qed

section \<open>Properties of the merger\<close>

lemma sint_16_le_max: "sint (v :: 16 word) \<le> 32767" and sint_16_ge_min: "- 32768 \<le> sint (v :: 16 word)"
  using sint_ge [of v] sint_lt [of v] by simp_all

lemma min16_Stats: "min16 (st_min Stats) v = v"
proof -
  have "sint (min16 (st_min Stats) v) = sint v"
    using sint_16_le_max [of v] by (simp add: sint_min16 Stats_def)
  then show ?thesis by (rule signed_word_eqI)
qed

lemma max16_Stats: "max16 (st_max Stats) v = v"
proof -
  have "sint (max16 (st_max Stats) v) = sint v"
    using sint_16_ge_min [of v] by (simp add: sint_max16 Stats_def)
  then show ?thesis by (rule signed_word_eqI)
qed

lemma merge_Stats: "merge Stats s = s"
  by (simp add: merge_def min16_Stats max16_Stats) (simp add: Stats_def)

lemma map_of_merge_entry:
  "map_of (merge_entry e merged) k =
     (if k = fst e then merge_option (map_of merged k) (Some (snd e)) else map_of merged k)"
  by (simp add: merge_entry_def Let_def update_conv' merge_option_def)

lemma map_of_merge_map:
  "distinct (map fst cities) \<Longrightarrow>
   map_of (merge_map cities merged) k = merge_option (map_of merged k) (map_of cities k)"
proof (induction cities arbitrary: merged)
  case Nil
  then show ?case by (simp add: merge_map_def merge_option_def)
next
  case (Cons e es)
  from Cons.prems have d: "distinct (map fst es)" and n: "fst e \<notin> fst ` set es"
    by simp_all
  have "map_of (merge_map (e # es) merged) k = map_of (merge_map es (merge_entry e merged)) k"
    by (simp add: merge_map_def)
  also have "\<dots> = merge_option (map_of (merge_entry e merged) k) (map_of es k)"
    by (rule Cons.IH [OF d])
  also have "\<dots> = merge_option (map_of merged k) (map_of (e # es) k)"
  proof (cases "k = fst e")
    case True
    with n have "map_of es k = None"
      by (simp add: map_of_eq_None_iff)
    with True show ?thesis
      by (cases e) (simp add: map_of_merge_entry merge_option_def)
  next
    case False
    then show ?thesis
      by (cases e) (simp add: map_of_merge_entry)
  qed
  finally show ?case .
qed

lemma distinct_merge_map:
  "distinct (map fst merged) \<Longrightarrow> distinct (map fst (merge_map cities merged))"
  unfolding merge_map_def
  by (induction cities arbitrary: merged) (simp_all add: merge_entry_def Let_def distinct_update)

lemma distinct_fold_merge_map:
  "distinct (map fst front) \<Longrightarrow> distinct (map fst (fold merge_map rest front))"
  by (induction rest arbitrary: front) (simp_all add: distinct_merge_map)

lemma map_of_fold_merge_map:
  "\<forall>m\<in>set rest. distinct (map fst m) \<Longrightarrow>
   map_of (fold merge_map rest front) k =
     foldl merge_option (map_of front k) (map (\<lambda>m. map_of m k) rest)"
  by (induction rest arbitrary: front) (simp_all add: map_of_merge_map)




















section \<open>Properties of the floating-point arithmetic\<close>

text \<open>
  The digits of a number, the logarithm of a quotient and the nearest integer are what
  their names say.
\<close>

lemma bit_length_bounds:
  "0 < n \<Longrightarrow> 2 ^ (bit_length n - 1) \<le> n \<and> n < 2 ^ bit_length n"
proof (induction n rule: bit_length.induct)
  case (1 n)
  show ?case
  proof (cases "n div 2 = 0")
    case True
    with 1(2) have "n = 1"
      by (simp add: div_eq_0_iff)
    then show ?thesis
      by (simp add: bit_length.simps)
  next
    case False
    with 1 have ih: "2 ^ (bit_length (n div 2) - 1) \<le> n div 2" "n div 2 < 2 ^ bit_length (n div 2)"
      by simp_all
    from False have pos: "0 < bit_length (n div 2)"
      by (subst bit_length.simps) simp
    have b: "bit_length n = Suc (bit_length (n div 2))"
      using 1(2) by (subst bit_length.simps) simp
    from pos have "(2::nat) ^ bit_length (n div 2) = 2 * 2 ^ (bit_length (n div 2) - 1)"
      by (cases "bit_length (n div 2)") simp_all
    with ih show ?thesis
      unfolding b by simp linarith
  qed
qed

lemma power_nat_quotient: "(2::real) ^ nat k / 2 ^ nat (- k) = 2 powi k"
  by (cases "0 \<le> k") (simp_all add: power_int_def field_simps)

lemma scaled_quotient:
  assumes "0 < q"
  shows "real (p * 2 ^ nat (- e)) / real (q * 2 ^ nat e) = real p / real q * 2 powi (- e)"
proof -
  have "(2::real) powi (- e) = 2 ^ nat (- e) / 2 ^ nat e"
    using power_nat_quotient [of "- e"] by simp
  then show ?thesis
    by simp
qed

lemma floor_log2_bounds:
  assumes "0 < p" "0 < q"
  shows "2 powi (floor_log2 p q) \<le> real p / real q"
    and "real p / real q < 2 powi (floor_log2 p q + 1)"
proof -
  define a where "a = bit_length p"
  define b where "b = bit_length q"
  define k where "k = int a - int b"
  from bit_length_bounds [OF assms(1)] have pa: "2 ^ (a - 1) \<le> p" "p < 2 ^ a"
    by (simp_all add: a_def)
  from bit_length_bounds [OF assms(2)] have qb: "2 ^ (b - 1) \<le> q" "q < 2 ^ b"
    by (simp_all add: b_def)
  from pa(2) assms(1) have a0: "0 < a"
    by (cases a) simp_all
  from qb(2) assms(2) have b0: "0 < b"
    by (cases b) simp_all
  have rp: "(2::real) ^ (a - 1) \<le> real p" "real p < 2 ^ a"
    using pa by (metis of_nat_le_iff of_nat_numeral of_nat_power, metis of_nat_less_iff of_nat_numeral of_nat_power)
  have rq: "(2::real) ^ (b - 1) \<le> real q" "real q < 2 ^ b"
    using qb by (metis of_nat_le_iff of_nat_numeral of_nat_power, metis of_nat_less_iff of_nat_numeral of_nat_power)
  have q0: "0 < real q"
    using assms(2) by simp
  have upper: "real p / real q < 2 powi (k + 1)"
  proof -
    have "real p < 2 ^ a"
      by (rule rp)
    also have "(2::real) ^ a = 2 powi (k + 1) * 2 ^ (b - 1)"
    proof -
      have "(2::real) powi (k + 1) * 2 powi (int (b - 1)) = 2 powi (k + 1 + int (b - 1))"
        by (simp add: power_int_add)
      also have "k + 1 + int (b - 1) = int a"
        using b0 by (simp add: k_def)
      finally show ?thesis
        by simp
    qed
    also have "\<dots> \<le> 2 powi (k + 1) * real q"
      using rq(1) by (simp add: mult_left_mono)
    finally show ?thesis
      using q0 by (simp add: field_simps)
  qed
  have lower: "2 powi (k - 1) < real p / real q"
  proof -
    have "2 powi (k - 1) * real q < 2 powi (k - 1) * 2 ^ b"
      using rq(2) by simp
    also have "2 powi (k - 1) * (2::real) ^ b = 2 ^ (a - 1)"
    proof -
      have "(2::real) powi (k - 1) * 2 powi (int b) = 2 powi (k - 1 + int b)"
        by (simp add: power_int_add)
      also have "k - 1 + int b = int (a - 1)"
        using a0 by (simp add: k_def)
      finally show ?thesis
        by simp
    qed
    also have "\<dots> \<le> real p"
      by (rule rp)
    finally show ?thesis
      using q0 by (simp add: field_simps)
  qed
  have test: "q * 2 ^ nat k \<le> p * 2 ^ nat (- k) \<longleftrightarrow> 2 powi k \<le> real p / real q"
  proof -
    have "q * 2 ^ nat k \<le> p * 2 ^ nat (- k) \<longleftrightarrow> real (q * 2 ^ nat k) \<le> real (p * 2 ^ nat (- k))"
      by (simp only: of_nat_le_iff)
    also have "\<dots> \<longleftrightarrow> real q * (2 ^ nat k / 2 ^ nat (- k)) \<le> real p"
      by (simp add: field_simps)
    also have "\<dots> \<longleftrightarrow> 2 powi k \<le> real p / real q"
      unfolding power_nat_quotient using q0 by (simp add: field_simps)
    finally show ?thesis .
  qed
  have fl: "floor_log2 p q = (if 2 powi k \<le> real p / real q then k else k - 1)"
    unfolding floor_log2_def Let_def a_def [symmetric] b_def [symmetric] k_def [symmetric]
    using test by simp
  show "2 powi (floor_log2 p q) \<le> real p / real q"
    using lower by (simp add: fl)
  show "real p / real q < 2 powi (floor_log2 p q + 1)"
    using upper by (simp add: fl)
qed

lemma nearest_even_bound:
  assumes "0 < q"
  shows "\<bar>real (nearest_even p q) - real p / real q\<bar> \<le> 1 / 2"
proof -
  define f where "f = p div q"
  define r where "r = p mod q"
  have p: "p = f * q + r"
    by (simp add: f_def r_def)
  have rq: "r < q"
    using assms by (simp add: r_def)
  have q0: "0 < real q"
    using assms by simp
  have pq: "real p / real q = real f + real r / real q"
    using q0 by (simp add: p field_simps)
  show ?thesis
  proof (cases "2 * r < q \<or> (2 * r = q \<and> even f)")
    case True
    then have n: "nearest_even p q = f"
      unfolding nearest_even_def Let_def f_def r_def by simp
    from True have "2 * r \<le> q"
      by auto
    then have "2 * real r \<le> real q"
      by (metis of_nat_le_iff of_nat_mult of_nat_numeral)
    then have "real r / real q \<le> 1 / 2"
      using q0 by (simp add: field_simps)
    then show ?thesis
      unfolding n pq using q0 by simp
  next
    case False
    then have n: "nearest_even p q = f + 1"
      unfolding nearest_even_def Let_def f_def r_def by simp
    from False have "q \<le> 2 * r"
      by auto
    then have "real q \<le> 2 * real r"
      by (metis of_nat_le_iff of_nat_mult of_nat_numeral)
    then have 1: "1 / 2 \<le> real r / real q"
      using q0 by (simp add: field_simps)
    from rq have "real r / real q < 1"
      using q0 by simp
    with 1 show ?thesis
      unfolding n pq by simp
  qed
qed

lemma nearest_even_unique:
  assumes "0 < q" "\<bar>real p / real q - real k\<bar> < 1 / 2"
  shows "nearest_even p q = k"
proof -
  from nearest_even_bound [OF assms(1), of p] assms(2)
  have "\<bar>real (nearest_even p q) - real k\<bar> < 1"
    by linarith
  then have "\<bar>int (nearest_even p q) - int k\<bar> < 1"
    by (metis of_int_abs of_int_diff of_int_less_1_iff of_int_of_nat_eq)
  then show ?thesis
    by simp
qed

text \<open>
  Rounding a quotient in the range of the normal numbers of a format keeps it up to the
  relative error of the format: \<open>2 ^ - 53\<close> for \<^verbatim>\<open>double\<close>, \<open>2 ^ - 24\<close> for \<^verbatim>\<open>float\<close>.
\<close>

lemma powi_less_exp:
  assumes "(2::real) powi a \<le> x" "x < 2 powi b"
  shows "a < b"
proof (rule ccontr)
  assume "\<not> a < b"
  then have "b \<le> a"
    by simp
  then have "(2::real) powi b \<le> 2 powi a"
    by (rule power_int_increasing) simp
  with assms show False
    by linarith
qed

lemma powi_add2: "(2::real) powi (a + b) = 2 powi a * 2 powi b"
  by (rule power_int_add) simp

lemma round_fp_near:
  assumes "0 < p" "0 < q"
    and lo: "2 powi (fst (snd fmt) + int (fst fmt) - 1) \<le> real p / real q"
    and hi: "real p / real q < 2 powi (snd (snd fmt) + int (fst fmt) - 1)"
  shows "\<exists>m e. round_fp fmt s p q = Finite s m e
    \<and> \<bar>real m * 2 powi e - real p / real q\<bar> \<le> real p / real q * 2 powi (- int (fst fmt))"
proof -
  define x where "x = real p / real q"
  define fl where "fl = floor_log2 p q"
  define e where "e = fl - (int (fst fmt) - 1)"
  define m where "m = nearest_even (p * 2 ^ nat (- e)) (q * 2 ^ nat e)"
  note b = floor_log2_bounds [OF assms(1,2), folded x_def fl_def]
  from powi_less_exp [OF lo [folded x_def] b(2)]
  have 1: "fst (snd fmt) \<le> e"
    by (simp add: e_def)
  from powi_less_exp [OF b(1) hi [folded x_def]]
  have 2: "e < snd (snd fmt)"
    by (simp add: e_def)
  from 1 have mx: "max (fst (snd fmt)) (floor_log2 p q - (int (fst fmt) - 1)) = e"
    by (simp add: e_def fl_def)
  have r: "round_fp fmt s p q = Finite s m e"
    unfolding round_fp_def Let_def mx m_def [symmetric] using assms(1) 2 by simp
  have "0 < q * 2 ^ nat e"
    using assms(2) by simp
  from nearest_even_bound [OF this, of "p * 2 ^ nat (- e)"]
  have "\<bar>real m - x * 2 powi (- e)\<bar> \<le> 1 / 2"
    unfolding m_def [symmetric] scaled_quotient [OF assms(2)] x_def .
  then have "\<bar>real m - x * 2 powi (- e)\<bar> * 2 powi e \<le> 1 / 2 * 2 powi e"
    by (rule mult_right_mono) simp
  moreover have "\<bar>real m - x * 2 powi (- e)\<bar> * 2 powi e = \<bar>real m * 2 powi e - x\<bar>"
  proof -
    have "\<bar>real m - x * 2 powi (- e)\<bar> * 2 powi e = \<bar>(real m - x * 2 powi (- e)) * 2 powi e\<bar>"
      by (simp add: abs_mult)
    also have "(real m - x * 2 powi (- e)) * 2 powi e = real m * 2 powi e - x"
      by (simp add: algebra_simps power_int_minus)
    finally show ?thesis .
  qed
  moreover have "1 / 2 * (2::real) powi e = 2 powi fl * 2 powi (- int (fst fmt))"
  proof -
    have "fl + (- int (fst fmt)) = e + (- 1)"
      by (simp add: e_def)
    then have "(2::real) powi (fl + (- int (fst fmt))) = 2 powi (e + (- 1))"
      by simp
    then have "(2::real) powi fl * 2 powi (- int (fst fmt)) = 2 powi e * 2 powi (- 1)"
      unfolding powi_add2 .
    then show ?thesis
      by simp
  qed
  moreover have "2 powi fl * 2 powi (- int (fst fmt)) \<le> x * 2 powi (- int (fst fmt))"
    using b(1) by (rule mult_right_mono) simp
  ultimately have "\<bar>real m * 2 powi e - x\<bar> \<le> x * 2 powi (- int (fst fmt))"
    by linarith
  with r show ?thesis
    unfolding x_def by blast
qed

lemma round_binary64:
  assumes "0 < p" "0 < q" "1 / 2 ^ 64 \<le> real p / real q" "real p / real q \<le> 2 ^ 64"
  shows "\<exists>m e. round_fp binary64 s p q = Finite s m e
    \<and> \<bar>real m * 2 powi e - real p / real q\<bar> \<le> real p / real q / 2 ^ 53"
proof -
  have f: "fst (snd binary64) + int (fst binary64) - 1 = - 1022"
    "snd (snd binary64) + int (fst binary64) - 1 = 1023" "- int (fst binary64) = - 53"
    by (simp_all add: binary64_def)
  have "(2::real) powi (- 1022) \<le> 2 powi (- 64)"
    by (rule power_int_increasing) simp_all
  also have "(2::real) powi (- 64) = 1 / 2 ^ 64"
    by (simp add: power_int_minus_divide)
  finally have "(2::real) powi (- 1022) \<le> real p / real q"
    using assms(3) by (rule order_trans)
  then have lo: "2 powi (fst (snd binary64) + int (fst binary64) - 1) \<le> real p / real q"
    unfolding f .
  have "(2::real) powi 64 < 2 powi 1023"
    by (rule power_int_strict_increasing) simp_all
  moreover have "(2::real) powi 64 = 2 ^ 64"
    by simp
  ultimately have "real p / real q < 2 powi 1023"
    using assms(4) by linarith
  then have hi: "real p / real q < 2 powi (snd (snd binary64) + int (fst binary64) - 1)"
    unfolding f .
  have "(2::real) powi (- 53) = 1 / 2 ^ 53"
    by (simp add: power_int_minus_divide)
  with round_fp_near [OF assms(1,2) lo hi, of s] show ?thesis
    unfolding f by simp
qed

lemma round_binary32:
  assumes "0 < p" "0 < q" "1 / 2 ^ 64 \<le> real p / real q" "real p / real q \<le> 2 ^ 64"
  shows "\<exists>m e. round_fp binary32 s p q = Finite s m e
    \<and> \<bar>real m * 2 powi e - real p / real q\<bar> \<le> real p / real q / 2 ^ 24"
proof -
  have f: "fst (snd binary32) + int (fst binary32) - 1 = - 126"
    "snd (snd binary32) + int (fst binary32) - 1 = 127" "- int (fst binary32) = - 24"
    by (simp_all add: binary32_def)
  have "(2::real) powi (- 126) \<le> 2 powi (- 64)"
    by (rule power_int_increasing) simp_all
  also have "(2::real) powi (- 64) = 1 / 2 ^ 64"
    by (simp add: power_int_minus_divide)
  finally have "(2::real) powi (- 126) \<le> real p / real q"
    using assms(3) by (rule order_trans)
  then have lo: "2 powi (fst (snd binary32) + int (fst binary32) - 1) \<le> real p / real q"
    unfolding f .
  have "(2::real) powi 64 < 2 powi 127"
    by (rule power_int_strict_increasing) simp_all
  moreover have "(2::real) powi 64 = 2 ^ 64"
    by simp
  ultimately have "real p / real q < 2 powi 127"
    using assms(4) by linarith
  then have hi: "real p / real q < 2 powi (snd (snd binary32) + int (fst binary32) - 1)"
    unfolding f .
  have "(2::real) powi (- 24) = 1 / 2 ^ 24"
    by (simp add: power_int_minus_divide)
  with round_fp_near [OF assms(1,2) lo hi, of s] show ?thesis
    unfolding f by simp
qed

text \<open>Bounds for products and quotients of factors near 1.\<close>

lemma rel_factor:
  fixes x v r :: real
  assumes "0 < x" "\<bar>v - x\<bar> \<le> x * r"
  shows "v = x * (v / x)" "1 - r \<le> v / x" "v / x \<le> 1 + r"
proof -
  show "v = x * (v / x)"
    using assms(1) by simp
  from assms(2) have "x - x * r \<le> v" "v \<le> x + x * r"
    by linarith+
  then have "x * (1 - r) \<le> v" "v \<le> x * (1 + r)"
    by (simp_all add: algebra_simps)
  then show "1 - r \<le> v / x" "v / x \<le> 1 + r"
    using assms(1) by (simp_all add: field_simps)
qed

lemma mult_bounds:
  fixes x a :: real
  assumes "l \<le> x" "x \<le> h" "l' \<le> a" "a \<le> h'" "0 < l" "0 < l'"
  shows "l * l' \<le> x * a" "x * a \<le> h * h'"
proof -
  show "l * l' \<le> x * a"
    using assms by (intro mult_mono) simp_all
  show "x * a \<le> h * h'"
    using assms by (intro mult_mono) simp_all
qed

lemma five_factors:
  fixes a0 a1 a2 a3 b :: real
  assumes "1 - 1 / 2 ^ 53 \<le> a0" "a0 \<le> 1 + 1 / 2 ^ 53"
    and "1 - 1 / 2 ^ 53 \<le> a1" "a1 \<le> 1 + 1 / 2 ^ 53"
    and "1 - 1 / 2 ^ 53 \<le> a2" "a2 \<le> 1 + 1 / 2 ^ 53"
    and "1 - 1 / 2 ^ 24 \<le> a3" "a3 \<le> 1 + 1 / 2 ^ 24"
    and "1 - 1 / 2 ^ 53 \<le> b" "b \<le> 1 + 1 / 2 ^ 53"
  shows "\<bar>a0 * a1 * a2 * a3 / b - 1\<bar> \<le> 1 / 2 ^ 23"
proof -
  define l :: real where "l = 1 - 1 / 2 ^ 53"
  define h :: real where "h = 1 + 1 / 2 ^ 53"
  define l' :: real where "l' = 1 - 1 / 2 ^ 24"
  define h' :: real where "h' = 1 + 1 / 2 ^ 24"
  have pos: "0 < l" "0 < l'"
    by (simp_all add: l_def l'_def)
  note a = assms [folded l_def h_def l'_def h'_def]
  note 1 = mult_bounds [OF a(1,2) a(3,4) pos(1) pos(1)]
  have p2: "0 < l * l"
    using pos by simp
  note 2 = mult_bounds [OF 1 a(5,6) p2 pos(1)]
  have p3: "0 < l * l * l"
    using pos by simp
  note 3 = mult_bounds [OF 2 a(7,8) p3 pos(2)]
  have p4: "0 < l * l * l * l'"
    using pos by simp
  have pb: "0 < b"
    using a(9) pos by linarith
  have "l * l * l * l' / h \<le> a0 * a1 * a2 * a3 / b"
    using 3(1) p4 pb a(10) by (intro frac_le) simp_all
  moreover have "a0 * a1 * a2 * a3 / b \<le> h * h * h * h' / l"
  proof (rule frac_le)
    from p4 3 show "0 \<le> h * h * h * h'"
      by linarith
  qed (use 3(2) pos a(9) in simp_all)
  moreover have "1 - 1 / 2 ^ 23 \<le> l * l * l * l' / h"
    unfolding l_def l'_def h_def by simp
  moreover have "h * h * h * h' / l \<le> 1 + 1 / 2 ^ 23"
    unfolding l_def h'_def h_def by simp
  ultimately show ?thesis
    by linarith
qed

text \<open>
  Each operation, on operands in the range from \<open>2 ^ - 64\<close> to \<open>2 ^ 64\<close>, gives the exact
  result times a factor near 1.
\<close>

lemma factor_positive:
  fixes x v :: real
  assumes "0 < x" "\<bar>v - x\<bar> \<le> x * (1 / 2 ^ k)" "0 < k"
  shows "0 < v"
proof -
  have "(2::real) ^ 1 \<le> 2 ^ k"
    using assms(3) by (intro power_increasing) simp_all
  then have "1 / (2::real) ^ k \<le> 1 / 2"
    by (simp add: field_simps)
  then have "x * (1 / 2 ^ k) \<le> x * (1 / 2)"
    using assms(1) by (intro mult_left_mono) simp_all
  with assms(1,2) show ?thesis
    by linarith
qed

lemma round_binary64_factor:
  assumes "0 < p" "0 < q" "1 / 2 ^ 64 \<le> real p / real q" "real p / real q \<le> 2 ^ 64"
  shows "\<exists>m e a. round_fp binary64 s p q = Finite s m e \<and> 0 < m
    \<and> real m * 2 powi e = real p / real q * a \<and> 1 - 1 / 2 ^ 53 \<le> a \<and> a \<le> 1 + 1 / 2 ^ 53"
proof -
  from round_binary64 [OF assms, of s] obtain m e where r: "round_fp binary64 s p q = Finite s m e"
    and b: "\<bar>real m * 2 powi e - real p / real q\<bar> \<le> real p / real q * (1 / 2 ^ 53)"
    by auto
  have x: "0 < real p / real q"
    using assms(1,2) by simp
  note f = rel_factor [OF x b]
  from factor_positive [OF x b] have "0 < real m * 2 powi e"
    by simp
  then have "0 < m"
    by (simp add: zero_less_mult_iff)
  with r f show ?thesis
    by blast
qed

lemma round_binary32_factor:
  assumes "0 < p" "0 < q" "1 / 2 ^ 64 \<le> real p / real q" "real p / real q \<le> 2 ^ 64"
  shows "\<exists>m e a. round_fp binary32 s p q = Finite s m e \<and> 0 < m
    \<and> real m * 2 powi e = real p / real q * a \<and> 1 - 1 / 2 ^ 24 \<le> a \<and> a \<le> 1 + 1 / 2 ^ 24"
proof -
  from round_binary32 [OF assms, of s] obtain m e where r: "round_fp binary32 s p q = Finite s m e"
    and b: "\<bar>real m * 2 powi e - real p / real q\<bar> \<le> real p / real q * (1 / 2 ^ 24)"
    by auto
  have x: "0 < real p / real q"
    using assms(1,2) by simp
  note f = rel_factor [OF x b]
  from factor_positive [OF x b] have "0 < real m * 2 powi e"
    by simp
  then have "0 < m"
    by (simp add: zero_less_mult_iff)
  with r f show ?thesis
    by blast
qed

lemma double_of_int_factor:
  assumes "i \<noteq> 0" "\<bar>i\<bar> \<le> 2 ^ 63"
  shows "\<exists>m e a. double_of_int i = Finite (i < 0) m e \<and> 0 < m
    \<and> real m * 2 powi e = \<bar>real_of_int i\<bar> * a \<and> 1 - 1 / 2 ^ 53 \<le> a \<and> a \<le> 1 + 1 / 2 ^ 53"
proof -
  have p: "0 < nat \<bar>i\<bar>" "0 < (1::nat)"
    using assms(1) by simp_all
  have v: "real (nat \<bar>i\<bar>) / real 1 = \<bar>real_of_int i\<bar>"
    by simp
  have "1 \<le> \<bar>i\<bar>"
    using assms(1) by simp
  then have "1 \<le> \<bar>real_of_int i\<bar>"
    by (metis of_int_1_le_iff of_int_abs)
  then have lo: "1 / 2 ^ 64 \<le> real (nat \<bar>i\<bar>) / real 1"
    unfolding v by simp
  have "real_of_int \<bar>i\<bar> \<le> real_of_int (2 ^ 63)"
    using assms(2) by (simp only: of_int_le_iff)
  then have hi: "real (nat \<bar>i\<bar>) / real 1 \<le> 2 ^ 64"
    unfolding v by simp
  from round_binary64_factor [OF p lo hi, of "i < 0"] show ?thesis
    unfolding v double_of_int_def .
qed

lemma fp_div_factor:
  assumes "0 < m" "0 < n"
    and "1 / 2 ^ 64 \<le> real m * 2 powi e / (real n * 2 powi f)"
    and "real m * 2 powi e / (real n * 2 powi f) \<le> 2 ^ 64"
  shows "\<exists>m' e' a. fp_div binary64 (Finite s m e) (Finite t n f) = Finite (s \<noteq> t) m' e'
    \<and> 0 < m' \<and> real m' * 2 powi e' = real m * 2 powi e / (real n * 2 powi f) * a
    \<and> 1 - 1 / 2 ^ 53 \<le> a \<and> a \<le> 1 + 1 / 2 ^ 53"
proof -
  have "e - f = e + (- f)"
    by simp
  then have "(2::real) powi (e - f) = 2 powi e * 2 powi (- f)"
    by (simp only: powi_add2)
  also have "\<dots> = 2 powi e / 2 powi f"
    by (simp add: power_int_minus field_simps)
  finally have q: "(2::real) ^ nat (e - f) / 2 ^ nat (f - e) = 2 powi e / 2 powi f"
    using power_nat_quotient [of "e - f"] by simp
  have "real (m * 2 ^ nat (e - f)) / real (n * 2 ^ nat (f - e)) =
      real m / real n * (2 ^ nat (e - f) / 2 ^ nat (f - e))"
    by simp
  also have "\<dots> = real m * 2 powi e / (real n * 2 powi f)"
    unfolding q by simp
  finally have v: "real (m * 2 ^ nat (e - f)) / real (n * 2 ^ nat (f - e)) =
      real m * 2 powi e / (real n * 2 powi f)" .
  have p: "0 < m * 2 ^ nat (e - f)" "0 < n * 2 ^ nat (f - e)"
    using assms(1,2) by simp_all
  have d: "fp_div binary64 (Finite s m e) (Finite t n f) =
      round_fp binary64 (s \<noteq> t) (m * 2 ^ nat (e - f)) (n * 2 ^ nat (f - e))"
    using assms(2) by simp
  from round_binary64_factor [OF p assms(3,4) [folded v], of "s \<noteq> t"] show ?thesis
    unfolding v d .
qed

lemma float_of_double_factor:
  assumes "0 < m" "1 / 2 ^ 64 \<le> real m * 2 powi e" "real m * 2 powi e \<le> 2 ^ 64"
  shows "\<exists>m' e' a. float_of_double (Finite s m e) = Finite s m' e'
    \<and> 0 < m' \<and> real m' * 2 powi e' = real m * 2 powi e * a
    \<and> 1 - 1 / 2 ^ 24 \<le> a \<and> a \<le> 1 + 1 / 2 ^ 24"
proof -
  have "real (m * 2 ^ nat e) / real (2 ^ nat (- e)) = real m * (2 ^ nat e / 2 ^ nat (- e))"
    by simp
  then have v: "real (m * 2 ^ nat e) / real (2 ^ nat (- e)) = real m * 2 powi e"
    unfolding power_nat_quotient .
  have p: "0 < m * 2 ^ nat e" "0 < (2::nat) ^ nat (- e)"
    using assms(1) by simp_all
  from round_binary32_factor [OF p assms(2,3) [folded v], of s] show ?thesis
    unfolding v float_of_double.simps .
qed

lemma fixed1_tenths:
  "\<exists>t. fixed1 (Finite s m e) = Text (one_decimal s t)
    \<and> \<bar>real t - 10 * (real m * 2 powi e)\<bar> \<le> 1 / 2"
proof -
  have "real (10 * m * 2 ^ nat e) / real (2 ^ nat (- e)) =
      10 * (real m * (2 ^ nat e / 2 ^ nat (- e)))"
    by simp
  then have v: "real (10 * m * 2 ^ nat e) / real (2 ^ nat (- e)) = 10 * (real m * 2 powi e)"
    unfolding power_nat_quotient .
  have "0 < (2::nat) ^ nat (- e)"
    by simp
  from nearest_even_bound [OF this, of "10 * m * 2 ^ nat e"] show ?thesis
    unfolding v fixed1.simps by blast
qed

lemma coarse53:
  fixes a :: real
  assumes "1 - 1 / 2 ^ 53 \<le> a" "a \<le> 1 + 1 / 2 ^ 53"
  shows "7 / 8 \<le> a" "a \<le> 9 / 8"
proof -
  have "(7 / 8 :: real) \<le> 1 - 1 / 2 ^ 53" "1 + 1 / 2 ^ 53 \<le> (9 / 8 :: real)"
    by simp_all
  with assms show "7 / 8 \<le> a" "a \<le> 9 / 8"
    by linarith+
qed

lemma coarse24:
  fixes a :: real
  assumes "1 - 1 / 2 ^ 24 \<le> a" "a \<le> 1 + 1 / 2 ^ 24"
  shows "7 / 8 \<le> a" "a \<le> 9 / 8"
proof -
  have "(7 / 8 :: real) \<le> 1 - 1 / 2 ^ 24" "1 + 1 / 2 ^ 24 \<le> (9 / 8 :: real)"
    by simp_all
  with assms show "7 / 8 \<le> a" "a \<le> 9 / 8"
    by linarith+
qed

lemma tenth_double:
  assumes "i \<noteq> 0" "\<bar>i\<bar> \<le> 2 ^ 63"
  shows "\<exists>m e a0 a1. fp_div binary64 (double_of_int i) double_10 = Finite (i < 0) m e \<and> 0 < m
    \<and> real m * 2 powi e = \<bar>real_of_int i\<bar> / 10 * (a0 * a1)
    \<and> 1 - 1 / 2 ^ 53 \<le> a0 \<and> a0 \<le> 1 + 1 / 2 ^ 53
    \<and> 1 - 1 / 2 ^ 53 \<le> a1 \<and> a1 \<le> 1 + 1 / 2 ^ 53"
proof -
  define X where "X = \<bar>real_of_int i\<bar>"
  have "1 \<le> \<bar>i\<bar>"
    using assms(1) by simp
  then have X1: "1 \<le> X"
    unfolding X_def by (metis of_int_1_le_iff of_int_abs)
  have "real_of_int \<bar>i\<bar> \<le> real_of_int (2 ^ 63)"
    using assms(2) by (simp only: of_int_le_iff)
  then have X2: "X \<le> 2 ^ 63"
    by (simp add: X_def)
  from double_of_int_factor [OF assms, folded X_def]
  obtain m0 e0 a0 where d0: "double_of_int i = Finite (i < 0) m0 e0" and m0: "0 < m0"
    and v0: "real m0 * 2 powi e0 = X * a0"
    and a0: "1 - 1 / 2 ^ 53 \<le> a0" "a0 \<le> 1 + 1 / 2 ^ 53"
    by blast
  have b0: "1 * (7 / 8) \<le> X * a0" "X * a0 \<le> 2 ^ 63 * (9 / 8)"
    by (rule mult_bounds [OF X1 X2 coarse53 [OF a0]]; simp)+
  have x1: "real m0 * 2 powi e0 / (real 5 * 2 powi 1) = X * a0 / 10"
    by (simp add: v0)
  have r1: "1 / 2 ^ 64 \<le> X * a0 / 10" "X * a0 / 10 \<le> 2 ^ 64"
    using b0 by simp_all
  have "0 < (5::nat)"
    by simp
  from fp_div_factor [OF m0 this r1 [folded x1], of "i < 0" False]
  obtain m1 e1 a1 where d1: "fp_div binary64 (Finite (i < 0) m0 e0) (Finite False 5 1) =
      Finite (i < 0) m1 e1" and m1: "0 < m1"
    and v1: "real m1 * 2 powi e1 = X * a0 / 10 * a1"
    and a1: "1 - 1 / 2 ^ 53 \<le> a1" "a1 \<le> 1 + 1 / 2 ^ 53"
    unfolding x1 by auto
  have "real m1 * 2 powi e1 = X / 10 * (a0 * a1)"
    by (simp add: v1)
  with d1 m1 a0 a1 show ?thesis
    unfolding d0 double_10_def X_def by blast
qed

text \<open>
  What \<^verbatim>\<open>{:.1f}\<close> prints for \<^verbatim>\<open>i / 10.0\<close> narrowed to \<^verbatim>\<open>float\<close>, for an \<^verbatim>\<open>int16_t\<close>
  value \<open>i\<close>: the decimal numeral of \<open>i\<close> tenths. And for the average: a numeral of tenths
  near the quotient of the sum and the count.
\<close>

lemma div_bounds:
  fixes x w :: real
  assumes "l \<le> x" "x \<le> h" "l' \<le> w" "w \<le> h'" "0 < l" "0 < l'"
  shows "l / h' \<le> x / w" "x / w \<le> h / l'"
proof -
  show "l / h' \<le> x / w"
    using assms by (intro frac_le) simp_all
  show "x / w \<le> h / l'"
    using assms by (intro frac_le) simp_all
qed

lemma fixed1_zero: "fixed1 (Finite s 0 e) = Text (one_decimal s 0)"
  by (simp add: nearest_even_def)

lemma tenths_exact:
  assumes "\<bar>i\<bar> \<le> 32768"
  shows "fixed1 (float_of_double (fp_div binary64 (double_of_int i) double_10)) =
    Text (one_decimal (i < 0) (nat \<bar>i\<bar>))"
proof (cases "i = 0")
  case True
  then show ?thesis
    by (simp add: double_of_int_def round_fp_def double_10_def nearest_even_def)
next
  case False
  define X where "X = \<bar>real_of_int i\<bar>"
  have "1 \<le> \<bar>i\<bar>"
    using False by simp
  then have X1: "1 \<le> X"
    unfolding X_def by (metis of_int_1_le_iff of_int_abs)
  have "real_of_int \<bar>i\<bar> \<le> real_of_int 32768"
    using assms by (simp only: of_int_le_iff)
  then have X2: "X \<le> 32768"
    by (simp add: X_def)
  from assms have "\<bar>i\<bar> \<le> 2 ^ 63"
    by simp
  from tenth_double [OF False this, folded X_def]
  obtain m e a0 a1 where d: "fp_div binary64 (double_of_int i) double_10 = Finite (i < 0) m e"
    and m: "0 < m" and v: "real m * 2 powi e = X / 10 * (a0 * a1)"
    and a0: "1 - 1 / 2 ^ 53 \<le> a0" "a0 \<le> 1 + 1 / 2 ^ 53"
    and a1: "1 - 1 / 2 ^ 53 \<le> a1" "a1 \<le> 1 + 1 / 2 ^ 53"
    by blast
  have b01: "7 / 8 * (7 / 8) \<le> a0 * a1" "a0 * a1 \<le> 9 / 8 * (9 / 8)"
    by (rule mult_bounds [OF coarse53 [OF a0] coarse53 [OF a1]]; simp)+
  have X10: "1 / 10 \<le> X / 10" "X / 10 \<le> 32768 / 10"
    using X1 X2 by simp_all
  have bv: "1 / 10 * (7 / 8 * (7 / 8)) \<le> X / 10 * (a0 * a1)"
    "X / 10 * (a0 * a1) \<le> 32768 / 10 * (9 / 8 * (9 / 8))"
    by (rule mult_bounds [OF X10 b01]; simp)+
  have r: "1 / 2 ^ 64 \<le> real m * 2 powi e" "real m * 2 powi e \<le> 2 ^ 64"
    unfolding v using bv by simp_all
  from float_of_double_factor [OF m r, of "i < 0"]
  obtain m2 e2 a2 where d2: "float_of_double (Finite (i < 0) m e) = Finite (i < 0) m2 e2"
    and v2: "real m2 * 2 powi e2 = X / 10 * (a0 * a1) * a2"
    and a2: "1 - 1 / 2 ^ 24 \<le> a2" "a2 \<le> 1 + 1 / 2 ^ 24"
    unfolding v by blast
  from fixed1_tenths [of "i < 0" m2 e2]
  obtain t where f: "fixed1 (Finite (i < 0) m2 e2) = Text (one_decimal (i < 0) t)"
    and t: "\<bar>real t - 10 * (real m2 * 2 powi e2)\<bar> \<le> 1 / 2"
    by blast
  define P where "P = a0 * a1 * 1 * a2 / 1"
  have "\<bar>P - 1\<bar> \<le> 1 / 2 ^ 23"
    unfolding P_def by (rule five_factors [OF a0 a1 _ _ a2]) simp_all
  then have "X * \<bar>P - 1\<bar> \<le> 32768 * (1 / 2 ^ 23)"
    using X1 X2 by (intro mult_mono) simp_all
  moreover have "X * \<bar>P - 1\<bar> = \<bar>10 * (real m2 * 2 powi e2) - X\<bar>"
  proof -
    have "10 * (real m2 * 2 powi e2) - X = X * (P - 1)"
      by (simp add: v2 P_def algebra_simps)
    then show ?thesis
      using X1 by (simp add: abs_mult)
  qed
  ultimately have "\<bar>10 * (real m2 * 2 powi e2) - X\<bar> \<le> 1 / 256"
    by simp
  with t have "\<bar>real t - X\<bar> < 1"
    by linarith
  moreover have "X = real (nat \<bar>i\<bar>)"
    by (simp add: X_def)
  ultimately have "\<bar>real t - real (nat \<bar>i\<bar>)\<bar> < 1"
    by simp
  then have "\<bar>int t - int (nat \<bar>i\<bar>)\<bar> < 1"
    by (metis of_int_abs of_int_diff of_int_less_1_iff of_int_of_nat_eq)
  then have "t = nat \<bar>i\<bar>"
    by linarith
  with d d2 f show ?thesis
    by simp
qed

lemma avg_tenths:
  assumes "\<bar>tot\<bar> \<le> 2 ^ 63" "0 < c" "c < 2 ^ 31"
  shows "\<exists>t. fixed1 (float_of_double (fp_div binary64 (fp_div binary64 (double_of_int tot) double_10)
        (double_of_int c))) = Text (one_decimal (tot < 0) t)
    \<and> \<bar>real t - \<bar>real_of_int tot\<bar> / real_of_int c\<bar>
        \<le> 1 / 2 + \<bar>real_of_int tot\<bar> / real_of_int c / 2 ^ 23"
proof -
  define C where "C = real_of_int c"
  have "1 \<le> c"
    using assms(2) by simp
  then have C1: "1 \<le> C"
    unfolding C_def by (metis of_int_1_le_iff)
  have "real_of_int c \<le> real_of_int (2 ^ 31)"
    using assms(3) by (simp only: of_int_le_iff)
  then have C2: "C \<le> 2 ^ 31"
    by (simp add: C_def)
  have c: "c \<noteq> 0" "\<bar>c\<bar> \<le> 2 ^ 63" "\<bar>real_of_int c\<bar> = C" "\<not> c < 0"
    using assms(2,3) by (simp_all add: C_def)
  from double_of_int_factor [OF c(1,2)]
  obtain mc ec b where dc: "double_of_int c = Finite False mc ec" and mc: "0 < mc"
    and w: "real mc * 2 powi ec = C * b"
    and b: "1 - 1 / 2 ^ 53 \<le> b" "b \<le> 1 + 1 / 2 ^ 53"
    unfolding c(3) using c(4) by auto
  have bw: "1 * (7 / 8) \<le> C * b" "C * b \<le> 2 ^ 31 * (9 / 8)"
    by (rule mult_bounds [OF C1 C2 coarse53 [OF b]]; simp)+
  show ?thesis
  proof (cases "tot = 0")
    case True
    have "fp_div binary64 (fp_div binary64 (double_of_int tot) double_10) (double_of_int c) =
        Finite False 0 0"
      using mc by (simp add: True dc double_of_int_def [of 0] round_fp_def double_10_def)
    then have "fixed1 (float_of_double (fp_div binary64 (fp_div binary64 (double_of_int tot) double_10)
        (double_of_int c))) = Text (one_decimal (tot < 0) 0)"
      by (simp add: True round_fp_def nearest_even_def)
    then show ?thesis
      using True by (intro exI [of _ 0]) simp
  next
    case False
    define X where "X = \<bar>real_of_int tot\<bar>"
    have "1 \<le> \<bar>tot\<bar>"
      using False by simp
    then have X1: "1 \<le> X"
      unfolding X_def by (metis of_int_1_le_iff of_int_abs)
    have "real_of_int \<bar>tot\<bar> \<le> real_of_int (2 ^ 63)"
      using assms(1) by (simp only: of_int_le_iff)
    then have X2: "X \<le> 2 ^ 63"
      by (simp add: X_def)
    from tenth_double [OF False assms(1), folded X_def]
    obtain m e a0 a1 where d: "fp_div binary64 (double_of_int tot) double_10 = Finite (tot < 0) m e"
      and m: "0 < m" and v: "real m * 2 powi e = X / 10 * (a0 * a1)"
      and a0: "1 - 1 / 2 ^ 53 \<le> a0" "a0 \<le> 1 + 1 / 2 ^ 53"
      and a1: "1 - 1 / 2 ^ 53 \<le> a1" "a1 \<le> 1 + 1 / 2 ^ 53"
      by blast
    have b01: "7 / 8 * (7 / 8) \<le> a0 * a1" "a0 * a1 \<le> 9 / 8 * (9 / 8)"
      by (rule mult_bounds [OF coarse53 [OF a0] coarse53 [OF a1]]; simp)+
    have X10: "1 / 10 \<le> X / 10" "X / 10 \<le> 2 ^ 63 / 10"
      using X1 X2 by simp_all
    have bv: "1 / 10 * (7 / 8 * (7 / 8)) \<le> X / 10 * (a0 * a1)"
      "X / 10 * (a0 * a1) \<le> 2 ^ 63 / 10 * (9 / 8 * (9 / 8))"
      by (rule mult_bounds [OF X10 b01]; simp)+
    have bq: "1 / 10 * (7 / 8 * (7 / 8)) / (2 ^ 31 * (9 / 8)) \<le> X / 10 * (a0 * a1) / (C * b)"
      "X / 10 * (a0 * a1) / (C * b) \<le> 2 ^ 63 / 10 * (9 / 8 * (9 / 8)) / (1 * (7 / 8))"
      by (rule div_bounds [OF bv bw]; simp)+
    have r2: "1 / 2 ^ 64 \<le> real m * 2 powi e / (real mc * 2 powi ec)"
      "real m * 2 powi e / (real mc * 2 powi ec) \<le> 2 ^ 64"
      unfolding v w using bq by simp_all
    from fp_div_factor [OF m mc r2, of "tot < 0" False]
    obtain m2 e2 a2 where d2: "fp_div binary64 (Finite (tot < 0) m e) (Finite False mc ec) =
        Finite (tot < 0) m2 e2" and m2: "0 < m2"
      and v2: "real m2 * 2 powi e2 = X / 10 * (a0 * a1) / (C * b) * a2"
      and a2: "1 - 1 / 2 ^ 53 \<le> a2" "a2 \<le> 1 + 1 / 2 ^ 53"
      unfolding v w by auto
    have b2: "1 / 10 * (7 / 8 * (7 / 8)) / (2 ^ 31 * (9 / 8)) * (7 / 8)
        \<le> X / 10 * (a0 * a1) / (C * b) * a2"
      "X / 10 * (a0 * a1) / (C * b) * a2 \<le> 2 ^ 63 / 10 * (9 / 8 * (9 / 8)) / (1 * (7 / 8)) * (9 / 8)"
      by (rule mult_bounds [OF bq coarse53 [OF a2]]; simp)+
    have r3: "1 / 2 ^ 64 \<le> real m2 * 2 powi e2" "real m2 * 2 powi e2 \<le> 2 ^ 64"
      unfolding v2 using b2 by simp_all
    from float_of_double_factor [OF m2 r3, of "tot < 0"]
    obtain m3 e3 a3 where d3: "float_of_double (Finite (tot < 0) m2 e2) = Finite (tot < 0) m3 e3"
      and v3: "real m3 * 2 powi e3 = X / 10 * (a0 * a1) / (C * b) * a2 * a3"
      and a3: "1 - 1 / 2 ^ 24 \<le> a3" "a3 \<le> 1 + 1 / 2 ^ 24"
      unfolding v2 by blast
    from fixed1_tenths [of "tot < 0" m3 e3]
    obtain t where f: "fixed1 (Finite (tot < 0) m3 e3) = Text (one_decimal (tot < 0) t)"
      and t: "\<bar>real t - 10 * (real m3 * 2 powi e3)\<bar> \<le> 1 / 2"
      by blast
    define P where "P = a0 * a1 * a2 * a3 / b"
    have P: "\<bar>P - 1\<bar> \<le> 1 / 2 ^ 23"
      unfolding P_def by (rule five_factors [OF a0 a1 a2 a3 b])
    define Y where "Y = X / C"
    have Y0: "0 \<le> Y"
      using X1 C1 by (simp add: Y_def)
    have "Y * \<bar>P - 1\<bar> \<le> Y * (1 / 2 ^ 23)"
      using P Y0 by (rule mult_left_mono)
    moreover have "Y * \<bar>P - 1\<bar> = \<bar>10 * (real m3 * 2 powi e3) - Y\<bar>"
    proof -
      have "0 < b"
        using coarse53 [OF b] by linarith
      then have "10 * (real m3 * 2 powi e3) = Y * P"
        using C1 by (simp add: v3 P_def Y_def)
      then have "10 * (real m3 * 2 powi e3) - Y = Y * P - Y * 1"
        by simp
      then have e: "10 * (real m3 * 2 powi e3) - Y = Y * (P - 1)"
        by (simp only: right_diff_distrib)
      have "\<bar>Y * (P - 1)\<bar> = \<bar>Y\<bar> * \<bar>P - 1\<bar>"
        by (rule abs_mult)
      with Y0 show ?thesis
        unfolding e by simp
    qed
    ultimately have "\<bar>10 * (real m3 * 2 powi e3) - Y\<bar> \<le> Y / 2 ^ 23"
      by simp
    with t have "\<bar>real t - Y\<bar> \<le> 1 / 2 + Y / 2 ^ 23"
      by linarith
    with d dc d2 d3 f show ?thesis
      unfolding Y_def X_def C_def by auto
  qed
qed

section \<open>Properties of the reporter\<close>

text \<open>
  Claim C5, as stated, fails: the program has no empty-input error. On a map without
  entries \<^verbatim>\<open>dump_results\<close> formats the element at \<^verbatim>\<open>std::begin(sorted)\<close>, which is
  the end iterator, without any test: the behaviour is undefined. A file without any
  line terminator reaches that point with one worker.
\<close>

theorem dump_results_empty_counterexample:
  "dump_results [] = Inl (Undefined Deref_End_Iterator)
   \<and> process_file (example_host (Some ''1'') ''a;1.0'') ''measurements.txt'' =
       Inl (Undefined Deref_End_Iterator)"
  by (simp add: model_defs)

lemma sorted_distinct_strict:
  "sorted xs \<Longrightarrow> distinct xs \<Longrightarrow> sorted_wrt (<) (xs :: 'a :: linorder list)"
  by (simp add: strict_sorted_iff)

lemma sint_64_bounds: "\<bar>sint (v :: 64 word)\<bar> \<le> 2 ^ 63"
  using sint_ge [of v] sint_lt [of v] by simp

lemma sint_32_less: "sint (v :: 32 word) < 2 ^ 31"
  using sint_lt [of v] by simp

text \<open>
  The numbers of an entry. The minimum and the maximum are printed as the decimal
  numerals of their tenths. For a positive count the average is printed as a numeral of
  \<open>t\<close> tenths with the sign of the sum, where \<open>t\<close> is within
  \<open>1 / 2 + (\<bar>sum\<bar> / count) / 2 ^ 23\<close> of \<open>\<bar>sum\<bar> / count\<close>: the three roundings of the
  \<^verbatim>\<open>double\<close> arithmetic, the narrowing to \<^verbatim>\<open>float\<close> and the rounding to one decimal.
\<close>

lemma format_entry_numbers:
  "\<exists>avg_text.
      format_entry elem =
        [Text (fst elem), Text ''='',
         Text (one_decimal (sint (st_min (snd elem)) < 0) (nat \<bar>sint (st_min (snd elem))\<bar>)),
         Text ''/'', avg_text, Text ''/'',
         Text (one_decimal (sint (st_max (snd elem)) < 0) (nat \<bar>sint (st_max (snd elem))\<bar>))]
      \<and> (0 <s st_count (snd elem) \<longrightarrow>
            (\<exists>t. avg_text = Text (one_decimal (sint (st_sum (snd elem)) < 0) t)
               \<and> \<bar>real t - \<bar>real_of_int (sint (st_sum (snd elem)))\<bar>
                              / real_of_int (sint (st_count (snd elem)))\<bar>
                   \<le> 1 / 2 + \<bar>real_of_int (sint (st_sum (snd elem)))\<bar>
                              / real_of_int (sint (st_count (snd elem))) / 2 ^ 23))"
proof -
  define s where "s = snd elem"
  have mn: "\<bar>sint (st_min s)\<bar> \<le> 32768" and mx: "\<bar>sint (st_max s)\<bar> \<le> 32768"
    using sint_16_bounds [of "st_min s"] sint_16_bounds [of "st_max s"] by simp_all
  have f: "format_entry elem =
      [Text (fst elem), Text ''='',
       Text (one_decimal (sint (st_min s) < 0) (nat \<bar>sint (st_min s)\<bar>)),
       Text ''/'', fixed1 (Stats_avg s), Text ''/'',
       Text (one_decimal (sint (st_max s) < 0) (nat \<bar>sint (st_max s)\<bar>))]"
    unfolding format_entry_def format_stats_def Stats_min_def Stats_max_def s_def [symmetric]
      tenths_exact [OF mn] tenths_exact [OF mx] by simp
  have "\<exists>t. fixed1 (Stats_avg s) = Text (one_decimal (sint (st_sum s) < 0) t)
      \<and> \<bar>real t - \<bar>real_of_int (sint (st_sum s))\<bar> / real_of_int (sint (st_count s))\<bar>
          \<le> 1 / 2 + \<bar>real_of_int (sint (st_sum s))\<bar> / real_of_int (sint (st_count s)) / 2 ^ 23"
    if "0 <s st_count s"
  proof -
    from that have "0 < sint (st_count s)"
      by (simp add: word_sless_alt)
    from avg_tenths [OF sint_64_bounds this sint_32_less] show ?thesis
      unfolding Stats_avg_def .
  qed
  with f show ?thesis
    unfolding s_def by blast
qed

text \<open>
  Claim C5, amended. For a map with at least one entry \<^verbatim>\<open>dump_results\<close> prints an
  opening brace, the entries in strictly ascending order of their names (the bytes
  compared as unsigned values, a proper prefix first), the first as \<open>name=stats\<close> and each
  further one behind a comma and a space, and a closing brace with a line terminator.
  An entry's statistics are printed as min, avg and max, separated by slashes, each
  with one decimal: min and max as the decimal numerals of \<^verbatim>\<open>min_\<close> and \<^verbatim>\<open>max_\<close>
  tenths, and, for a positive count, avg as a numeral of tenths with the sign of the sum
  that is the quotient \<^verbatim>\<open>sum_ / 10.0 / count_\<close> up to the roundings of the
  floating-point arithmetic and of the output: its tenths are within
  \<open>1 / 2 + (\<bar>sum\<bar> / count) / 2 ^ 23\<close> of \<open>\<bar>sum\<bar> / count\<close>.
\<close>

theorem dump_results_sorted:
  assumes "cities \<noteq> []" and "distinct (map fst cities)"
  shows "\<exists>first rest.
      dump_results cities =
        Inr ([Text ''{''] @ format_entry first
             @ concat (map (\<lambda>elem. Text '', '' # format_entry elem) rest)
             @ [Text (''}'' @ [NL])])
      \<and> sorted_wrt (<) (map fst (first # rest))
      \<and> mset (first # rest) = mset cities
      \<and> (\<forall>elem \<in> set (first # rest). \<exists>avg_text.
            format_entry elem =
              [Text (fst elem), Text ''='',
               Text (one_decimal (sint (st_min (snd elem)) < 0) (nat \<bar>sint (st_min (snd elem))\<bar>)),
               Text ''/'', avg_text, Text ''/'',
               Text (one_decimal (sint (st_max (snd elem)) < 0) (nat \<bar>sint (st_max (snd elem))\<bar>))]
            \<and> (0 <s st_count (snd elem) \<longrightarrow>
                  (\<exists>t. avg_text = Text (one_decimal (sint (st_sum (snd elem)) < 0) t)
                     \<and> \<bar>real t - \<bar>real_of_int (sint (st_sum (snd elem)))\<bar>
                                    / real_of_int (sint (st_count (snd elem)))\<bar>
                         \<le> 1 / 2 + \<bar>real_of_int (sint (st_sum (snd elem)))\<bar>
                                    / real_of_int (sint (st_count (snd elem))) / 2 ^ 23)))"
proof -
  let ?es = "sort_key fst cities"
  from assms(1) have "?es \<noteq> []"
    by (metis length_sort length_0_conv)
  then obtain first rest where es: "?es = first # rest"
    by (cases ?es) auto
  have "sorted (map fst ?es)"
    by (rule sorted_sort_key)
  moreover have "distinct (map fst ?es)"
    using assms(2) by (metis mset_map mset_sort mset_eq_imp_distinct_iff)
  ultimately have "sorted_wrt (<) (map fst ?es)"
    by (rule sorted_distinct_strict)
  then have 1: "sorted_wrt (<) (map fst (first # rest))"
    unfolding es .
  have "mset ?es = mset cities"
    by simp
  then have 2: "mset (first # rest) = mset cities"
    unfolding es .
  have 3: "dump_results cities =
      Inr ([Text ''{''] @ format_entry first
           @ concat (map (\<lambda>elem. Text '', '' # format_entry elem) rest)
           @ [Text (''}'' @ [NL])])"
    by (simp add: dump_results_def es)
  from 1 2 3 format_entry_numbers show ?thesis
    by blast
qed

text \<open>
  An instance: two entries, given out of order. The second holds the values 0.1 and
  0.2: their mean 0.15 is printed as 0.2, from the \<^verbatim>\<open>float\<close> next to it.
\<close>

theorem dump_results_sorted_witness:
  "[(''b'', \<lparr>st_min = 1, st_max = 2, st_sum = 3, st_count = 2\<rparr>),
    (''ab'', \<lparr>st_min = - 5, st_max = - 5, st_sum = - 5, st_count = 1\<rparr>)] \<noteq> []
   \<and> distinct (map fst [(''b'', \<lparr>st_min = 1, st_max = 2, st_sum = 3, st_count = 2\<rparr>),
        (''ab'', \<lparr>st_min = - 5, st_max = - 5, st_sum = - 5, st_count = 1\<rparr>)])
   \<and> dump_results [(''b'', \<lparr>st_min = 1, st_max = 2, st_sum = 3, st_count = 2\<rparr>),
        (''ab'', \<lparr>st_min = - 5, st_max = - 5, st_sum = - 5, st_count = 1\<rparr>)] =
        Inr [Text ''{'', Text ''ab'', Text ''='', Text ''-0.5'', Text ''/'', Text ''-0.5'',
             Text ''/'', Text ''-0.5'', Text '', '', Text ''b'', Text ''='', Text ''0.1'',
             Text ''/'', Text ''0.2'', Text ''/'', Text ''0.2'', Text (''}'' @ [NL])]"
proof -
  let ?cities = "[(''b'', \<lparr>st_min = 1, st_max = 2, st_sum = 3, st_count = 2\<rparr>),
    (''ab'', \<lparr>st_min = - 5, st_max = - 5, st_sum = - 5, st_count = 1\<rparr>)]"
  have d: "?cities \<noteq> []" "distinct (map fst ?cities)"
    by simp_all
  have s: "sort_key fst ?cities =
      [(''ab'', \<lparr>st_min = - 5, st_max = - 5, st_sum = - 5, st_count = 1\<rparr>),
       (''b'', \<lparr>st_min = 1, st_max = 2, st_sum = 3, st_count = 2\<rparr>)]"
    by (simp add: less_eq_char_def)
  have f: "format_stats \<lparr>st_min = 1, st_max = 2, st_sum = 3, st_count = 2\<rparr> =
      [Text ''0.1'', Text ''/'', Text ''0.2'', Text ''/'', Text ''0.2'']"
    "format_stats \<lparr>st_min = - 5, st_max = - 5, st_sum = - 5, st_count = 1\<rparr> =
      [Text ''-0.5'', Text ''/'', Text ''-0.5'', Text ''/'', Text ''-0.5'']"
    by (simp_all add: float_defs)
  from dump_results_sorted [OF d] d show ?thesis
    by (simp add: dump_results_def s format_entry_def f)
qed

section \<open>Properties of the segmenter\<close>

lemma find_first_terminated:
  assumes "d \<noteq> []" "last d = NL" "p < length d"
  obtains k where "find_first NL (drop p d) = Some k" "p + k < length d" "d ! (p + k) = NL"
    "NL \<notin> set (take k (drop p d))"
proof -
  from assms(3) have "drop p d \<noteq> []"
    by simp
  then have "last (drop p d) = NL"
    using assms(2,3) by simp
  with \<open>drop p d \<noteq> []\<close> have "NL \<in> set (drop p d)"
    by (metis last_in_set)
  then obtain k where k: "find_first NL (drop p d) = Some k"
    by (cases "find_first NL (drop p d)") (simp_all add: find_first_None)
  from find_first_Some [OF k] have "k < length d - p" "drop p d ! k = NL"
    "NL \<notin> set (take k (drop p d))"
    by simp_all
  then have "p + k < length d" "d ! (p + k) = NL"
    by simp_all
  with k \<open>NL \<notin> set (take k (drop p d))\<close> show thesis
    using that by blast
qed

lemma next_start_bounds:
  assumes "d \<noteq> []" "last d = NL" "p \<le> length d"
  shows "p \<le> next_start d p" and "next_start d p \<le> length d"
    and "next_start d p = 0 \<or> d ! (next_start d p - 1) = NL"
proof -
  have "p \<le> next_start d p \<and> next_start d p \<le> length d
      \<and> (next_start d p = 0 \<or> d ! (next_start d p - 1) = NL)"
  proof (cases "p = 0 \<or> d ! (p - 1) = NL")
    case True
    with assms(3) show ?thesis
      by (auto simp: next_start_def)
  next
    case False
    have "p \<noteq> length d"
      using False assms(1,2) by (auto simp: last_conv_nth)
    with assms(3) have "p < length d"
      by simp
    from find_first_terminated [OF assms(1,2) this]
    obtain k where "find_first NL (drop p d) = Some k" "p + k < length d" "d ! (p + k) = NL"
      by blast
    with False show ?thesis
      by (simp add: next_start_def)
  qed
  then show "p \<le> next_start d p" and "next_start d p \<le> length d"
    and "next_start d p = 0 \<or> d ! (next_start d p - 1) = NL"
    by simp_all
qed

lemma next_start_least:
  assumes "d \<noteq> []" "last d = NL" "p \<le> b" "b \<le> length d" "b = 0 \<or> d ! (b - 1) = NL"
  shows "next_start d p \<le> b"
proof (cases "p = 0 \<or> d ! (p - 1) = NL")
  case True
  with assms(3) show ?thesis
    by (auto simp: next_start_def)
next
  case False
  with assms(3,5) have pb: "p < b" and bn: "d ! (b - 1) = NL"
    by (auto simp: le_less)
  with assms(4) have "p < length d"
    by simp
  from find_first_terminated [OF assms(1,2) this]
  obtain k where k: "find_first NL (drop p d) = Some k" "p + k < length d"
    "NL \<notin> set (take k (drop p d))"
    by blast
  have "\<not> b - 1 - p < k"
  proof
    assume lt: "b - 1 - p < k"
    with k(2) have "take k (drop p d) ! (b - 1 - p) = d ! (p + (b - 1 - p))"
      by simp
    also from pb have "p + (b - 1 - p) = b - 1"
      by simp
    finally have "take k (drop p d) ! (b - 1 - p) = NL"
      using bn by simp
    moreover from lt k(2) have "b - 1 - p < length (take k (drop p d))"
      by simp
    ultimately have "NL \<in> set (take k (drop p d))"
      by (metis nth_mem)
    with k(3) show False ..
  qed
  with pb have "p + k + 1 \<le> b"
    by simp
  with False k(1) show ?thesis
    by (simp add: next_start_def)
qed

lemma next_start_mono:
  assumes "d \<noteq> []" "last d = NL" "p \<le> q" "q \<le> length d"
  shows "next_start d p \<le> next_start d q"
proof -
  note q = next_start_bounds [OF assms(1,2,4)]
  from assms(3) q(1) have "p \<le> next_start d q"
    by simp
  from next_start_least [OF assms(1,2) this q(2,3)] show ?thesis .
qed

lemma next_start_end:
  assumes "d \<noteq> []" "last d = NL"
  shows "next_start d (length d) = length d"
  using assms by (simp add: next_start_def last_conv_nth)

lemma next_start_0: "next_start d 0 = 0"
  by (simp add: next_start_def)

text \<open>The adjustments of the source compute \<open>next_start\<close> while their reads stay inside the view.\<close>

lemma adjust_in_range:
  assumes "1 \<le> p" "p \<le> sv_size data" "sv_size data < 2 ^ 64"
  shows "(case sv_at data ((p + 2 ^ 64 - 1) mod 2 ^ 64) of
           Inl e \<Rightarrow> Inl e
         | Inr c \<Rightarrow> Inr (if c \<noteq> NL then find_plus_one (sv_find data NL p) else p)) =
         Inr (next_start (sv_chars data) p)"
proof -
  from assms have "p + 2 ^ 64 - 1 = 2 ^ 64 + (p - 1)" and lt: "p - 1 < (2 :: nat) ^ 64"
    by simp_all
  then have m: "(p + 2 ^ 64 - 1) mod 2 ^ 64 = p - 1"
    by (simp only: mod_add_self1 mod_less)
  from assms have at: "sv_at data (p - 1) = Inr (sv_chars data ! (p - 1))"
    by (simp add: sv_at_def)
  have f: "find_plus_one (sv_find data NL p) =
      (case find_first NL (drop p (sv_chars data)) of None \<Rightarrow> 0 | Some k \<Rightarrow> p + k + 1)"
  proof (cases "find_first NL (drop p (sv_chars data))")
    case None
    then show ?thesis
      by (simp add: find_plus_one_def sv_find_def)
  next
    case (Some k)
    from find_first_Some [OF Some] have "k < sv_size data - p"
      by (simp add: sv_size_def)
    with assms have "p + k + 1 < 2 ^ 64"
      by simp
    with Some show ?thesis
      by (simp add: find_plus_one_def sv_find_def)
  qed
  from assms(1) show ?thesis
    unfolding m at by (simp add: f next_start_def)
qed

lemma next_line_start_eq:
  assumes "i = 0 \<longrightarrow> p = 0" "0 < i \<longrightarrow> 1 \<le> p" "p \<le> sv_size data" "sv_size data < 2 ^ 64"
  shows "next_line_start data i p = Inr (next_start (sv_chars data) p)"
proof (cases "0 < i")
  case True
  with assms have "1 \<le> p" by simp
  from adjust_in_range [OF this assms(3,4)] True show ?thesis
    by (simp add: next_line_start_def)
next
  case False
  with assms(1) show ?thesis
    by (simp add: next_line_start_def next_start_0)
qed

lemma end_at_eol_eq:
  assumes "i < chunks" "1 \<le> p" "p \<le> sv_size data" "sv_size data < 2 ^ 64"
  shows "end_at_eol data chunks i p = Inr (next_start (sv_chars data) p)"
  using adjust_in_range [OF assms(2-4)] assms(1) by (simp add: end_at_eol_def)

lemma split_segment_eq:
  assumes "sv_chars data \<noteq> []" "last (sv_chars data) = NL"
    and "i < chunks" "1 \<le> c" "(i + 1) * c \<le> sv_size data" "sv_size data < 2 ^ 64"
  shows "split_segment data chunks c i = Inr (segment_of data c i)"
proof -
  let ?d = "sv_chars data"
  let ?s = "next_start ?d (i * c)" and ?e = "next_start ?d ((i + 1) * c)"
  from assms(5) have ic: "i * c \<le> sv_size data" and le: "i * c \<le> (i + 1) * c"
    by simp_all
  with assms(6) have m1: "(i * c) mod 2 ^ 64 = i * c"
    by simp
  from assms(5,6) have m2: "(i * c + c) mod 2 ^ 64 = (i + 1) * c"
    by simp
  have "0 < i \<longrightarrow> 1 \<le> i * c"
    using assms(4) by (cases i) simp_all
  then have st: "next_line_start data i (i * c) = Inr ?s"
    using ic assms(6) by (intro next_line_start_eq) simp_all
  have "1 \<le> (i + 1) * c"
    using assms(4) by simp
  then have en: "end_at_eol data chunks i ((i + 1) * c) = Inr ?e"
    using assms(3,5,6) by (intro end_at_eol_eq)
  have l5: "(i + 1) * c \<le> length ?d"
    using assms(5) by (simp add: sv_size_def)
  have se: "?s \<le> ?e"
    using assms(1,2) le l5 by (rule next_start_mono)
  have el: "?e \<le> length ?d"
    using assms(1,2) l5 by (rule next_start_bounds)
  from se el assms(6) have "?e + 2 ^ 64 - ?s = 2 ^ 64 + (?e - ?s)" and "?e - ?s < 2 ^ 64"
    by (simp_all add: sv_size_def)
  then have m3: "(?e + 2 ^ 64 - ?s) mod 2 ^ 64 = ?e - ?s"
    by (simp only: mod_add_self1 mod_less)
  from se el have "sv_substr data ?s (?e - ?s) = Inr (segment_of data c i)"
    by (simp add: sv_substr_def sv_size_def segment_of_def)
  then show ?thesis
    unfolding split_segment_def Let_def m1 m2 st en sum.case m3 .
qed

lemma split_loop_eq:
  assumes "\<forall>j. i \<le> j \<and> j < chunks \<longrightarrow> split_segment data chunks c j = Inr (f j)"
    and "length segs = chunks" "i \<le> chunks"
  shows "split_loop data chunks c i segs = Inr (take i segs @ map f [i..<chunks])"
  using assms
proof (induction "chunks - i" arbitrary: i segs)
  case 0
  then show ?case
    by (subst split_loop.simps) simp
next
  case (Suc n)
  then have lt: "i < chunks"
    by simp
  with Suc.prems(1) have seg: "split_segment data chunks c i = Inr (f i)"
    by simp
  have "split_loop data chunks c (i + 1) (segs[i := f i]) =
      Inr (take (i + 1) (segs[i := f i]) @ map f [i + 1..<chunks])"
    using Suc.hyps(2) Suc.prems lt by (intro Suc.hyps(1)) simp_all
  moreover have "take (i + 1) (segs[i := f i]) = take i segs @ [f i]"
    using lt Suc.prems(2) by (simp add: take_Suc_conv_app_nth)
  moreover have "[i..<chunks] = i # [i + 1..<chunks]"
    using lt by (simp add: upt_conv_Cons)
  ultimately show ?case
    using lt seg by (subst split_loop.simps) simp
qed

lemma chunk_size_exact:
  assumes "0 < N" "N dvd L" "L < 2 ^ 63" "0 < (L :: nat)"
  shows "((L + N - 1) mod 2 ^ 64) div N = L div N" and "N * (L div N) = L" and "1 \<le> L div N"
proof -
  from assms(2) obtain c where L: "L = N * c"
    by (rule dvdE)
  have c: "0 < c"
    using assms(4) unfolding L by simp
  from assms(1) L c have "N \<le> L"
    by simp
  with assms(3) have "L + N - 1 < 2 ^ 64"
    by simp
  then have "(L + N - 1) mod 2 ^ 64 = L + N - 1"
    by simp
  moreover have "(N * c + N - 1) div N = c"
  proof -
    define r where "r = N - 1"
    from assms(1) have N: "N * c + N - 1 = r + c * N" and r: "r < N"
      by (simp_all add: r_def mult.commute)
    have "(r + c * N) div N = c + r div N"
      using assms(1) by simp
    with r show ?thesis
      unfolding N by simp
  qed
  ultimately show "((L + N - 1) mod 2 ^ 64) div N = L div N"
    using assms(1) by (simp add: L)
  show "N * (L div N) = L"
    using assms(2) by simp
  show "1 \<le> L div N"
    using assms(1) c by (simp add: L)
qed

lemma split_input_eq:
  assumes "sv_chars data \<noteq> []" "last (sv_chars data) = NL"
    and "0 < N" "N dvd sv_size data" "sv_size data < 2 ^ 63"
  shows "split_input data (int N) = Inr (map (segment_of data (sv_size data div N)) [0..<N])"
proof -
  let ?c = "sv_size data div N"
  from assms(1) have pos: "0 < sv_size data"
    by (simp add: sv_size_def)
  note cs = chunk_size_exact [OF assms(3,4,5) pos]
  from assms(5) have lt: "sv_size data < 2 ^ 64"
    by simp
  have "split_segment data N ?c j = Inr (segment_of data ?c j)" if "j < N" for j
  proof -
    from that have "(j + 1) * ?c \<le> N * ?c"
      by (intro mult_le_mono1) simp
    with cs(2) have "(j + 1) * ?c \<le> sv_size data"
      by simp
    with assms(1,2) that cs(3) lt show ?thesis
      by (intro split_segment_eq)
  qed
  then have loop: "split_loop data N ?c 0 (replicate N \<lparr>sv_ptr = 0, sv_chars = []\<rparr>) =
      Inr (take 0 (replicate N \<lparr>sv_ptr = 0, sv_chars = []\<rparr>) @ map (segment_of data ?c) [0..<N])"
    by (intro split_loop_eq) simp_all
  have "split_input data (int N) =
      split_loop data N ((sv_size data + N - 1) mod 2 ^ 64 div N) 0
        (replicate N \<lparr>sv_ptr = 0, sv_chars = []\<rparr>)"
    using assms(3) by (simp add: split_input_def Let_def)
  also have "\<dots> = split_loop data N ?c 0 (replicate N \<lparr>sv_ptr = 0, sv_chars = []\<rparr>)"
    by (simp only: cs(1))
  finally show ?thesis
    using loop by simp
qed

lemma concat_pieces:
  assumes "\<forall>i<n. b i \<le> b (Suc i)"
  shows "concat (map (\<lambda>i. take (b (Suc i) - b i) (drop (b i) d)) [0..<n]) =
    take (b n - b 0) (drop (b 0) d) \<and> b 0 \<le> b n"
  using assms
proof (induction n)
  case 0
  then show ?case by simp
next
  case (Suc n)
  then have IH: "concat (map (\<lambda>i. take (b (Suc i) - b i) (drop (b i) d)) [0..<n]) =
      take (b n - b 0) (drop (b 0) d)" and le: "b 0 \<le> b n" and st: "b n \<le> b (Suc n)"
    by simp_all
  have "take (b (Suc n) - b 0) (drop (b 0) d) =
      take ((b n - b 0) + (b (Suc n) - b n)) (drop (b 0) d)"
    using le st by simp
  also have "\<dots> = take (b n - b 0) (drop (b 0) d) @
      take (b (Suc n) - b n) (drop (b n - b 0) (drop (b 0) d))"
    by (rule take_add)
  also have "drop (b n - b 0) (drop (b 0) d) = drop (b n) d"
    using le by simp
  finally show ?case
    using IH le st by simp
qed

lemma segments_partition:
  assumes "sv_chars data \<noteq> []" "last (sv_chars data) = NL"
    and "0 < N" "N * c = sv_size data" "i \<le> N"
  shows "concat (map sv_chars (map (segment_of data c) [0..<i])) =
      take (next_start (sv_chars data) (i * c)) (sv_chars data)"
proof -
  let ?d = "sv_chars data"
  let ?b = "\<lambda>i. next_start ?d (i * c)"
  have "?b j \<le> ?b (Suc j)" if "j < i" for j
  proof -
    from that assms(5) have "Suc j * c \<le> N * c"
      by (intro mult_le_mono1) simp
    with assms(4) have "Suc j * c \<le> length ?d"
      by (simp add: sv_size_def)
    with assms(1,2) show ?thesis
      by (intro next_start_mono) simp_all
  qed
  then have "\<forall>j<i. ?b j \<le> ?b (Suc j)"
    by simp
  from concat_pieces [of i ?b ?d, OF this] show ?thesis
    by (simp add: segment_of_def next_start_0 comp_def)
qed

text \<open>
  Claim C1, as stated, fails: a buffer without a line terminator at its end is not
  partitioned. For the four bytes \<open>abcd\<close> and two workers every search for a
  terminator returns \<^verbatim>\<open>npos\<close>, both bounds of both segments become 0, and the two
  segments are empty.
\<close>

theorem split_input_unterminated_counterexample:
  "split_input \<lparr>sv_ptr = 0, sv_chars = ''abcd''\<rparr> 2 =
     Inr [\<lparr>sv_ptr = 0, sv_chars = []\<rparr>, \<lparr>sv_ptr = 0, sv_chars = []\<rparr>]
   \<and> concat (map sv_chars [\<lparr>sv_ptr = 0, sv_chars = []\<rparr>, \<lparr>sv_ptr = 0, sv_chars = []\<rparr>]) \<noteq> ''abcd''"
  by (simp add: model_defs)

text \<open>
  Claim C1, amended. For every buffer that is not empty and ends with a line terminator
  (a view spans fewer than \<open>2 ^ 63\<close> bytes, the largest size of an object) and every
  worker count \<open>N \<ge> 1\<close> that divides its size, \<^verbatim>\<open>split_input\<close> returns
  exactly \<open>N\<close> segments; their bytes, concatenated in order, are the buffer; every segment
  is empty or ends with a terminator, so no line lies in two segments; every segment
  starts where the segments before it end, at offset 0 or right behind a terminator; and
  the last segment ends at the end of the buffer.
\<close>

theorem split_input_partition:
  assumes "sv_chars data \<noteq> []" "last (sv_chars data) = NL"
    and "0 < N" "N dvd sv_size data" "sv_size data < 2 ^ 63"
  shows "\<exists>segs. split_input data (int N) = Inr segs \<and> length segs = N
    \<and> concat (map sv_chars segs) = sv_chars data
    \<and> (\<forall>i<N. sv_chars (segs ! i) = [] \<or> last (sv_chars (segs ! i)) = NL)
    \<and> (\<forall>i<N. \<exists>b. sv_ptr (segs ! i) = sv_ptr data + b
            \<and> b = length (concat (map sv_chars (take i segs)))
            \<and> (b = 0 \<or> sv_chars data ! (b - 1) = NL))
    \<and> sv_ptr (last segs) + sv_size (last segs) = sv_ptr data + sv_size data"
proof -
  let ?d = "sv_chars data"
  let ?c = "sv_size data div N"
  let ?b = "\<lambda>i. next_start ?d (i * ?c)"
  let ?segs = "map (segment_of data ?c) [0..<N]"
  from assms(1) have pos: "0 < sv_size data"
    by (simp add: sv_size_def)
  note cs = chunk_size_exact [OF assms(3,4,5) pos]
  have le: "i * ?c \<le> length ?d" if "i \<le> N" for i
  proof -
    from that have "i * ?c \<le> N * ?c"
      by (rule mult_le_mono1)
    with cs(2) show ?thesis
      by (simp add: sv_size_def)
  qed
  note bd = next_start_bounds [OF assms(1,2) le]
  have mono: "?b i \<le> ?b j" if "i \<le> j" "j \<le> N" for i j
    using assms(1,2) that by (intro next_start_mono le mult_le_mono1)
  have bN: "?b N = length ?d"
    using next_start_end [OF assms(1,2)] cs(2) by (simp add: sv_size_def)
  have 1: "split_input data (int N) = Inr ?segs"
    by (rule split_input_eq [OF assms])
  have 2: "length ?segs = N"
    by simp
  have 3: "concat (map sv_chars ?segs) = ?d"
    using segments_partition [OF assms(1,2,3) cs(2), of N] bN by simp
  have chars: "sv_chars (?segs ! i) = take (?b (Suc i) - ?b i) (drop (?b i) ?d)" if "i < N" for i
    using that by (simp add: segment_of_def)
  have 4: "sv_chars (?segs ! i) = [] \<or> last (sv_chars (?segs ! i)) = NL" if "i < N" for i
  proof (cases "?b i < ?b (Suc i)")
    case True
    from that have s: "Suc i \<le> N"
      by simp
    from bd(2) [OF s] have l: "?b (Suc i) \<le> length ?d" .
    with True have ne: "take (?b (Suc i) - ?b i) (drop (?b i) ?d) \<noteq> []"
      by simp
    from True l have len: "length (take (?b (Suc i) - ?b i) (drop (?b i) ?d)) = ?b (Suc i) - ?b i"
      by simp
    have "last (take (?b (Suc i) - ?b i) (drop (?b i) ?d)) =
        take (?b (Suc i) - ?b i) (drop (?b i) ?d) ! (?b (Suc i) - ?b i - 1)"
      using ne len by (simp add: last_conv_nth)
    also have "\<dots> = ?d ! (?b i + (?b (Suc i) - ?b i - 1))"
      using True l by simp
    also have "?b i + (?b (Suc i) - ?b i - 1) = ?b (Suc i) - 1"
      using True by simp
    also have "?d ! (?b (Suc i) - 1) = NL"
      using bd(3) [OF s] True by auto
    finally show ?thesis
      by (simp add: chars [OF that])
  next
    case False
    then show ?thesis
      by (simp add: chars [OF that])
  qed
  have 5: "\<exists>b. sv_ptr (?segs ! i) = sv_ptr data + b
      \<and> b = length (concat (map sv_chars (take i ?segs)))
      \<and> (b = 0 \<or> ?d ! (b - 1) = NL)" if "i < N" for i
  proof -
    from that have i: "i \<le> N"
      by simp
    have "take i ?segs = map (segment_of data ?c) [0..<i]"
      using i by (simp add: take_map)
    then have "concat (map sv_chars (take i ?segs)) = take (?b i) ?d"
      using segments_partition [OF assms(1,2,3) cs(2) i] by simp
    then have "length (concat (map sv_chars (take i ?segs))) = ?b i"
      using bd(2) [OF i] by simp
    moreover have "sv_ptr (?segs ! i) = sv_ptr data + ?b i"
      using that by (simp add: segment_of_def)
    ultimately show ?thesis
      using bd(3) [OF i] by simp
  qed
  have 6: "sv_ptr (last ?segs) + sv_size (last ?segs) = sv_ptr data + sv_size data"
  proof -
    define s where "s = ?b (N - 1)"
    from assms(3) have l: "last ?segs = segment_of data ?c (N - 1)"
      by (simp add: last_map)
    from assms(3) have e: "(N - 1 + 1) * ?c = N * ?c"
      by simp
    have "?b (N - 1) \<le> ?b N"
      by (rule mono) simp_all
    with bN have sl: "s \<le> length ?d"
      by (simp add: s_def)
    have "segment_of data ?c (N - 1) =
        \<lparr>sv_ptr = sv_ptr data + s, sv_chars = take (length ?d - s) (drop s ?d)\<rparr>"
      unfolding segment_of_def e bN s_def ..
    with sl show ?thesis
      unfolding l by (simp add: sv_size_def)
  qed
  from 1 2 3 4 5 6 show ?thesis
    by blast
qed

theorem split_input_partition_witness:
  "sv_chars \<lparr>sv_ptr = 0, sv_chars = ''ab'' @ [NL] @ ''cde'' @ [NL] @ [NL] @ ''fghij'' @ [NL]\<rparr> \<noteq> []
   \<and> last (sv_chars \<lparr>sv_ptr = 0, sv_chars = ''ab'' @ [NL] @ ''cde'' @ [NL] @ [NL] @ ''fghij'' @ [NL]\<rparr>) = NL
   \<and> (0 :: nat) < 7
   \<and> (7 :: nat) dvd sv_size \<lparr>sv_ptr = 0, sv_chars = ''ab'' @ [NL] @ ''cde'' @ [NL] @ [NL] @ ''fghij'' @ [NL]\<rparr>
   \<and> sv_size \<lparr>sv_ptr = 0, sv_chars = ''ab'' @ [NL] @ ''cde'' @ [NL] @ [NL] @ ''fghij'' @ [NL]\<rparr> < 2 ^ 63
   \<and> (\<exists>segs. split_input \<lparr>sv_ptr = 0, sv_chars = ''ab'' @ [NL] @ ''cde'' @ [NL] @ [NL] @ ''fghij'' @ [NL]\<rparr> 7 = Inr segs
        \<and> length segs = 7
        \<and> concat (map sv_chars segs) = ''ab'' @ [NL] @ ''cde'' @ [NL] @ [NL] @ ''fghij'' @ [NL])"
proof -
  let ?data = "\<lparr>sv_ptr = 0, sv_chars = ''ab'' @ [NL] @ ''cde'' @ [NL] @ [NL] @ ''fghij'' @ [NL]\<rparr>"
  have sz: "sv_size ?data = 14"
    by (simp add: sv_size_def)
  have h: "sv_chars ?data \<noteq> []" "last (sv_chars ?data) = NL" "(0 :: nat) < 7"
    "(7 :: nat) dvd sv_size ?data" "sv_size ?data < 2 ^ 63"
    unfolding sz by simp_all
  from split_input_partition [OF h] h show ?thesis
    by auto
qed

section \<open>A worker count that does not divide the size\<close>

text \<open>
  A file of one record, the six bytes \<open>a;1.0\<close> and a line terminator. With one worker the
  program prints the statistics of \<open>a\<close>. With eight workers the chunk size is 1; the bound
  \<^verbatim>\<open>end\<close> of the chunk of index 6 is 7, and \<^verbatim>\<open>split_input\<close> reads \<^verbatim>\<open>data[end - 1]\<close>,
  the byte behind the last one of the view, which \<^verbatim>\<open>operator[]\<close> does not define: what
  the run does then depends on the memory behind the file, and this model gives it no
  result. The guard \<^verbatim>\<open>i < chunks\<close> in front of that read holds in every round.
\<close>

lemma process_file_eight_workers_out_of_bounds:
  "process_file (example_host (Some ''1'') (''a;1.0'' @ [NL])) ''measurements.txt'' =
     Inr ([Text ''{'', Text ''a'', Text ''='']
          @ [Text ''1.0'', Text ''/'', Text ''1.0'', Text ''/'', Text ''1.0'']
          @ [Text (''}'' @ [NL])])
   \<and> process_file (example_host (Some ''8'') (''a;1.0'' @ [NL])) ''measurements.txt'' =
     Inl (Undefined Read_Out_Of_Bounds)
   \<and> split_segment \<lparr>sv_ptr = 0, sv_chars = ''a;1.0'' @ [NL]\<rparr> 8 1 6 =
     Inl (Undefined Read_Out_Of_Bounds)"
  by (simp add: model_defs float_defs)

lemma find_first_append:
  "c \<notin> set xs \<Longrightarrow> find_first c (xs @ c # ys) = Some (length xs)"
  by (induction xs) auto

lemma read_lines_from:
  assumes "\<forall>l\<in>set ls. NL \<notin> set l" and "NL \<notin> set tail"
    and "drop p (sv_chars d) = concat (map (\<lambda>l. l @ [NL]) ls) @ tail"
  shows "read_lines \<lparr>r_data = d, r_pos = p\<rparr> = Inr (line_views (sv_ptr d + p) ls)"
  using assms
proof (induction ls arbitrary: p)
  case Nil
  then have "sv_find d NL p = None"
    by (simp add: sv_find_None)
  then show ?case
    by (subst read_lines.simps) (simp add: getline_def)
next
  case (Cons l ls)
  let ?rest = "concat (map (\<lambda>l. l @ [NL]) ls) @ tail"
  from Cons.prems(3) have dr: "drop p (sv_chars d) = l @ NL # ?rest"
    by simp
  from Cons.prems(1) have nl: "NL \<notin> set l"
    by simp
  have fnd: "sv_find d NL p = Some (p + length l)"
    by (simp add: sv_find_def dr find_first_append [OF nl])
  have "length (drop p (sv_chars d)) > 0"
    by (simp add: dr)
  then have ple: "p \<le> sv_size d"
    by (simp add: sv_size_def)
  have "length (drop p (sv_chars d)) \<ge> length l"
    by (simp only: dr) simp
  then have "min (length l) (sv_size d - p) = length l"
    by (simp add: sv_size_def)
  then have sub: "sv_substr d p (p + length l - p) = Inr \<lparr>sv_ptr = sv_ptr d + p, sv_chars = l\<rparr>"
    using ple by (simp add: sv_substr_def dr)
  have "drop (p + length l + 1) (sv_chars d) = drop (length l + 1) (drop p (sv_chars d))"
    by (simp add: add.commute add.left_commute)
  also have "\<dots> = ?rest"
    by (simp add: dr)
  finally have dr': "drop (p + length l + 1) (sv_chars d) = ?rest" .
  from Cons.prems(1) have "\<forall>l\<in>set ls. NL \<notin> set l"
    by simp
  from Cons.IH [OF this Cons.prems(2) dr']
  have vs: "read_lines \<lparr>r_data = d, r_pos = Suc (p + length l)\<rparr> =
      Inr (line_views (Suc (sv_ptr d + p + length l)) ls)"
    by (simp add: add.assoc)
  have gl: "getline \<lparr>r_data = d, r_pos = p\<rparr> =
      Inr (Some (\<lparr>sv_ptr = sv_ptr d + p, sv_chars = l\<rparr>, \<lparr>r_data = d, r_pos = p + length l + 1\<rparr>))"
    using fnd sub by (simp add: getline_def)
  show ?case
    by (subst read_lines.simps) (simp add: gl vs)
qed

lemma chars_line_views: "map sv_chars (line_views p ls) = ls"
  by (induction ls arbitrary: p) simp_all

text \<open>
  Claim C8. Every byte sequence is, in exactly one way, a sequence of lines \<open>ls\<close>, each
  without a terminator inside and each followed by one, and then a tail without any
  terminator. On a segment of that form the line scanner yields exactly the lines
  \<open>ls\<close>, in order, each as the byte range of the line without its terminator, and
  then stops: the tail, a final line that lacks its terminator, is never yielded.
\<close>

theorem getline_yields_terminated_lines:
  assumes "\<forall>l\<in>set ls. NL \<notin> set l" and "NL \<notin> set tail"
    and "sv_chars d = concat (map (\<lambda>l. l @ [NL]) ls) @ tail"
  shows "read_lines (Reader d) = Inr (line_views (sv_ptr d) ls)
    \<and> map sv_chars (line_views (sv_ptr d) ls) = ls"
  using read_lines_from [of ls tail 0 d] assms by (simp add: Reader_def chars_line_views)

theorem getline_yields_terminated_lines_witness:
  "NL \<notin> set ''ab'' \<and> NL \<notin> set ''c'' \<and> NL \<notin> set ''de'' \<and>
   read_lines (Reader \<lparr>sv_ptr = 10, sv_chars = ''ab'' @ [NL] @ ''c'' @ [NL] @ ''de''\<rparr>) =
     Inr [\<lparr>sv_ptr = 10, sv_chars = ''ab''\<rparr>, \<lparr>sv_ptr = 13, sv_chars = ''c''\<rparr>]"
proof -
  have h: "\<forall>l\<in>set [''ab'', ''c'']. NL \<notin> set l" "NL \<notin> set ''de''"
    by (simp_all add: NL_def)
  have "sv_chars \<lparr>sv_ptr = 10, sv_chars = ''ab'' @ [NL] @ ''c'' @ [NL] @ ''de''\<rparr> =
      concat (map (\<lambda>l. l @ [NL]) [''ab'', ''c'']) @ ''de''"
    by simp
  from getline_yields_terminated_lines [OF h this] h show ?thesis
    by simp
qed

section \<open>Properties of the command line\<close>

text \<open>
  Claim C9. With more than one argument (\<^verbatim>\<open>argc > 2\<close>) the program writes the usage
  line to the error stream and exits with a non-zero code, whatever the host holds: no
  file is read. With no argument it processes \<^verbatim>\<open>measurements.txt\<close>, with one
  argument the file it names, and when that succeeds it exits with code 0.
\<close>

theorem main_argument_count:
  "(2 < length argv \<longrightarrow>
      main h argv = Inr \<lparr>exit_code = 1, stdout = [], stderr = ''usage: main [ <input_file> ]'' @ [NL]\<rparr>)
   \<and> (length argv \<le> 1 \<and> process_file h ''measurements.txt'' = Inr out \<longrightarrow>
      main h argv = Inr \<lparr>exit_code = 0, stdout = out, stderr = []\<rparr>)
   \<and> (length argv = 2 \<and> process_file h (argv ! 1) = Inr out \<longrightarrow>
      main h argv = Inr \<lparr>exit_code = 0, stdout = out, stderr = []\<rparr>)"
  by (simp add: main_def EXIT_FAILURE_def EXIT_SUCCESS_def)

theorem main_argument_count_witness:
  "main (example_host (Some ''1'') (''a;1.0'' @ [NL])) [''main'', ''x.txt'', ''y.txt''] =
     Inr \<lparr>exit_code = 1, stdout = [], stderr = ''usage: main [ <input_file> ]'' @ [NL]\<rparr>
   \<and> (\<exists>out. process_file (example_host (Some ''1'') (''a;1.0'' @ [NL])) ''measurements.txt'' = Inr out
        \<and> main (example_host (Some ''1'') (''a;1.0'' @ [NL])) [''main''] =
            Inr \<lparr>exit_code = 0, stdout = out, stderr = []\<rparr>
        \<and> main (example_host (Some ''1'') (''a;1.0'' @ [NL])) [''main'', ''measurements.txt''] =
            Inr \<lparr>exit_code = 0, stdout = out, stderr = []\<rparr>)"
proof -
  let ?h = "example_host (Some ''1'') (''a;1.0'' @ [NL])"
  obtain out where out: "process_file ?h ''measurements.txt'' = Inr out"
    by (simp add: model_defs)
  from main_argument_count [of "[''main'', ''x.txt'', ''y.txt'']" ?h]
  have 1: "main ?h [''main'', ''x.txt'', ''y.txt''] =
      Inr \<lparr>exit_code = 1, stdout = [], stderr = ''usage: main [ <input_file> ]'' @ [NL]\<rparr>"
    by simp
  from main_argument_count [of "[''main'']" ?h out] out
  have 2: "main ?h [''main''] = Inr \<lparr>exit_code = 0, stdout = out, stderr = []\<rparr>"
    by simp
  from main_argument_count [of "[''main'', ''measurements.txt'']" ?h out] out
  have 3: "main ?h [''main'', ''measurements.txt''] = Inr \<lparr>exit_code = 0, stdout = out, stderr = []\<rparr>"
    by simp
  from 1 2 3 out show ?thesis
    by blast
qed

section \<open>The merge receives one map per segment\<close>

lemma split_loop_length:
  "split_loop data chunks size' i segments = Inr segs \<Longrightarrow> length segs = length segments"
proof (induction data chunks size' i segments rule: split_loop.induct)
  case (1 data chunks size' i segments)
  show ?case
  proof (cases "i < chunks")
    case True
    with "1.prems" obtain seg where seg: "split_segment data chunks size' i = Inr seg"
      and rec: "split_loop data chunks size' (i + 1) (segments[i := seg]) = Inr segs"
      by (subst (asm) split_loop.simps) (auto split: sum.splits)
    from "1.IH" [OF True seg rec] show ?thesis
      by simp
  next
    case False
    with "1.prems" show ?thesis
      by (subst (asm) split_loop.simps) simp
  qed
qed

lemma split_input_length:
  "split_input data chunks = Inr segs \<Longrightarrow> 0 < chunks \<and> length segs = nat chunks"
  by (auto simp: split_input_def Let_def split: if_splits dest: split_loop_length)

lemma collect_length: "collect rs = Inr xs \<Longrightarrow> length xs = length rs"
proof (induction rs arbitrary: xs)
  case Nil
  then show ?case by simp
next
  case (Cons r rs)
  then show ?case
    by (cases r) (auto split: sum.splits)
qed

lemma sv_substr_failure: "sv_substr v pos n = Inl e \<Longrightarrow> e = Thrown Out_Of_Range"
  by (simp add: sv_substr_def split: if_splits)

lemma get_temperature_failure:
  "get_temperature v = Inl e \<Longrightarrow> e \<noteq> Undefined Front_Of_Empty_Span"
  by (auto simp: get_temperature_def sv_at_def sv_remove_prefix_def
      split: if_splits sum.splits prod.splits)

lemma add_line_failure:
  "add_line cities line = Inl e \<Longrightarrow> e \<noteq> Undefined Front_Of_Empty_Span"
  by (auto simp: add_line_def Let_def split: sum.splits
      dest: sv_substr_failure get_temperature_failure)

lemma getline_failure: "getline r = Inl e \<Longrightarrow> e = Thrown Out_Of_Range"
  by (auto simp: getline_def split: option.splits sum.splits dest: sv_substr_failure)

lemma process_lines_failure:
  "process_lines r cities = Inl e \<Longrightarrow> e \<noteq> Undefined Front_Of_Empty_Span"
proof (induction r cities rule: process_lines.induct)
  case (1 r cities)
  show ?case
  proof (cases "getline r")
    case (Inl e')
    with "1.prems" have "e = e'"
      by (subst (asm) process_lines.simps) simp
    with getline_failure [OF Inl] show ?thesis
      by simp
  next
    case (Inr res)
    show ?thesis
    proof (cases res)
      case None
      with Inr "1.prems" show ?thesis
        by (subst (asm) process_lines.simps) simp
    next
      case (Some lr)
      obtain line r' where lr: "lr = (line, r')"
        by (cases lr)
      show ?thesis
      proof (cases "add_line cities line")
        case (Inl e')
        with Inr Some lr "1.prems" have "e = e'"
          by (subst (asm) process_lines.simps) simp
        with add_line_failure [OF Inl] show ?thesis
          by simp
      next
        case (Inr cities')
        with \<open>getline r = Inr res\<close> Some lr "1.prems"
        have "process_lines r' cities' = Inl e"
          by (subst (asm) process_lines.simps) simp
        with "1.IH" [OF \<open>getline r = Inr res\<close> Some lr [symmetric] Inr] show ?thesis
          by simp
      qed
    qed
  qed
qed

lemma collect_failure:
  "collect rs = Inl e \<Longrightarrow> \<exists>r\<in>set rs. r = Inl e"
proof (induction rs)
  case Nil
  then show ?case by simp
next
  case (Cons r rs)
  then show ?case
    by (cases r) (auto split: sum.splits)
qed

text \<open>
  Claim C10. For a worker count \<open>N \<ge> 1\<close>: whenever \<^verbatim>\<open>split_input\<close> returns, it
  returns \<open>N\<close> segments, and one map is asked for per segment. The workers never fail
  with the \<^verbatim>\<open>front()\<close> of an empty span, and whenever every segment yields its map,
  there are \<open>N\<close> maps: the span that \<^verbatim>\<open>merge_results\<close> receives is not empty, its
  \<^verbatim>\<open>front()\<close> is defined and the merge returns a map.
\<close>

theorem merge_results_front_defined:
  assumes "1 \<le> N" and "split_input data N = Inr segments"
  shows "length segments = nat N \<and> length (map process_segment segments) = nat N
    \<and> process_all segments \<noteq> Inl (Undefined Front_Of_Empty_Span)
    \<and> (\<forall>results. collect (map process_segment segments) = Inr results \<longrightarrow>
          length results = nat N \<and> results \<noteq> []
          \<and> (\<exists>merged. merge_results results = Inr merged \<and> process_all segments = Inr merged))"
proof -
  from split_input_length [OF assms(2)] have n: "length segments = nat N"
    by simp
  have r: "length results = nat N \<and> results \<noteq> []
      \<and> (\<exists>merged. merge_results results = Inr merged \<and> process_all segments = Inr merged)"
    if c: "collect (map process_segment segments) = Inr results" for results
  proof -
    from collect_length [OF c] n have l: "length results = nat N"
      by simp
    with assms(1) have "results \<noteq> []"
      by auto
    then obtain front rest where "results = front # rest"
      by (cases results) auto
    with l c show ?thesis
      by (simp add: process_all_def)
  qed
  have "process_all segments \<noteq> Inl (Undefined Front_Of_Empty_Span)"
  proof (cases "collect (map process_segment segments)")
    case (Inl e)
    from collect_failure [OF Inl] obtain s where "process_segment s = Inl e"
      by auto
    then have "e \<noteq> Undefined Front_Of_Empty_Span"
      unfolding process_segment_def by (rule process_lines_failure)
    with Inl show ?thesis
      by (simp add: process_all_def)
  next
    case (Inr results)
    from r [OF Inr] show ?thesis
      by auto
  qed
  with n r show ?thesis
    by simp
qed

theorem merge_results_front_defined_witness:
  "(1 :: int) \<le> 2
   \<and> (\<exists>segments results merged.
         split_input \<lparr>sv_ptr = 0, sv_chars = ''a;1.0'' @ [NL] @ ''b;2.5'' @ [NL]\<rparr> 2 = Inr segments
       \<and> collect (map process_segment segments) = Inr results
       \<and> length segments = 2 \<and> length results = 2
       \<and> merge_results results = Inr merged)"
proof -
  let ?d = "\<lparr>sv_ptr = 0, sv_chars = ''a;1.0'' @ [NL] @ ''b;2.5'' @ [NL]\<rparr>"
  let ?segments = "[\<lparr>sv_ptr = 0, sv_chars = ''a;1.0'' @ [NL]\<rparr>, \<lparr>sv_ptr = 6, sv_chars = ''b;2.5'' @ [NL]\<rparr>]"
  have s: "split_input ?d 2 = Inr ?segments"
    by (simp add: model_defs)
  obtain results where r: "collect (map process_segment ?segments) = Inr results"
    by (simp add: model_defs)
  from merge_results_front_defined [OF _ s] s r show ?thesis
    by auto
qed

section \<open>The worker count and the output\<close>

lemma process_lines_from:
  assumes "\<forall>l\<in>set ls. NL \<notin> set l" and "NL \<notin> set tail"
    and "drop p (sv_chars d) = concat (map (\<lambda>l. l @ [NL]) ls) @ tail"
  shows "process_lines \<lparr>r_data = d, r_pos = p\<rparr> cities =
    add_lines (line_views (sv_ptr d + p) ls) cities"
  using assms
proof (induction ls arbitrary: p cities)
  case Nil
  then have "sv_find d NL p = None"
    by (simp add: sv_find_None)
  then show ?case
    by (subst process_lines.simps) (simp add: getline_def)
next
  case (Cons l ls)
  let ?rest = "concat (map (\<lambda>l. l @ [NL]) ls) @ tail"
  from Cons.prems(3) have dr: "drop p (sv_chars d) = l @ NL # ?rest"
    by simp
  from Cons.prems(1) have nl: "NL \<notin> set l"
    by simp
  have fnd: "sv_find d NL p = Some (p + length l)"
    by (simp add: sv_find_def dr find_first_append [OF nl])
  have "length (drop p (sv_chars d)) > 0"
    by (simp add: dr)
  then have ple: "p \<le> sv_size d"
    by (simp add: sv_size_def)
  have "length (drop p (sv_chars d)) \<ge> length l"
    by (simp only: dr) simp
  then have "min (length l) (sv_size d - p) = length l"
    by (simp add: sv_size_def)
  then have sub: "sv_substr d p (p + length l - p) = Inr \<lparr>sv_ptr = sv_ptr d + p, sv_chars = l\<rparr>"
    using ple by (simp add: sv_substr_def dr)
  have "drop (p + length l + 1) (sv_chars d) = drop (length l + 1) (drop p (sv_chars d))"
    by (simp add: add.commute add.left_commute)
  also have "\<dots> = ?rest"
    by (simp add: dr)
  finally have dr': "drop (p + length l + 1) (sv_chars d) = ?rest" .
  from Cons.prems(1) have "\<forall>l\<in>set ls. NL \<notin> set l"
    by simp
  from Cons.IH [OF this Cons.prems(2) dr']
  have rec: "process_lines \<lparr>r_data = d, r_pos = Suc (p + length l)\<rparr> cities' =
      add_lines (line_views (Suc (sv_ptr d + p + length l)) ls) cities'" for cities'
    by (simp add: add.assoc)
  have gl: "getline \<lparr>r_data = d, r_pos = p\<rparr> =
      Inr (Some (\<lparr>sv_ptr = sv_ptr d + p, sv_chars = l\<rparr>, \<lparr>r_data = d, r_pos = p + length l + 1\<rparr>))"
    using fnd sub by (simp add: getline_def)
  show ?case
    by (subst process_lines.simps) (simp add: gl rec split: sum.splits)
qed

lemma lines_exist:
  "\<exists>ls tail. s = enc ls @ tail \<and> (\<forall>l\<in>set ls. NL \<notin> set l) \<and> NL \<notin> set tail"
proof (induction s)
  case Nil
  have "[] = enc [] @ [] \<and> (\<forall>l\<in>set []. NL \<notin> set l) \<and> NL \<notin> set []"
    by (simp add: enc_def)
  then show ?case by blast
next
  case (Cons c s)
  then obtain ls tail where s: "s = enc ls @ tail" and ls: "\<forall>l\<in>set ls. NL \<notin> set l"
    and tail: "NL \<notin> set tail"
    by blast
  show ?case
  proof (cases "c = NL")
    case True
    have "c # s = enc ([] # ls) @ tail \<and> (\<forall>l\<in>set ([] # ls). NL \<notin> set l) \<and> NL \<notin> set tail"
      using True s ls tail by (simp add: enc_def)
    then show ?thesis by blast
  next
    case False
    show ?thesis
    proof (cases ls)
      case Nil
      have "c # s = enc [] @ (c # tail) \<and> (\<forall>l\<in>set []. NL \<notin> set l) \<and> NL \<notin> set (c # tail)"
        using False s Nil tail by (simp add: enc_def)
      then show ?thesis by blast
    next
      case (Cons l ls')
      have "c # s = enc ((c # l) # ls') @ tail
          \<and> (\<forall>l\<in>set ((c # l) # ls'). NL \<notin> set l) \<and> NL \<notin> set tail"
        using False s Cons ls tail by (simp add: enc_def)
      then show ?thesis by blast
    qed
  qed
qed

lemma terminated_lines_exist:
  assumes "terminated s"
  obtains ls where "s = enc ls" "\<forall>l\<in>set ls. NL \<notin> set l"
proof -
  from lines_exist [of s] obtain ls tail where s: "s = enc ls @ tail"
    and ls: "\<forall>l\<in>set ls. NL \<notin> set l" and tail: "NL \<notin> set tail"
    by blast
  have "tail = []"
  proof (rule ccontr)
    assume ne: "tail \<noteq> []"
    with s have "last s = last tail"
      by simp
    moreover from ne s assms have "last s = NL"
      by (auto simp: terminated_def)
    ultimately have "NL \<in> set tail"
      using ne by (metis last_in_set)
    with tail show False ..
  qed
  with s ls show thesis
    using that by simp
qed

lemma line_views_append:
  "line_views p (xs @ ys) = line_views p xs @ line_views (p + length (enc xs)) ys"
  by (induction xs arbitrary: p) (simp_all add: enc_def add.assoc)

lemma enc_append: "enc (xs @ ys) = enc xs @ enc ys"
  by (simp add: enc_def)

lemma add_line_parse:
  "add_line M l =
     (case parse_line l of
        Inl e \<Rightarrow> Inl e
      | Inr (c, t) \<Rightarrow>
          Inr (AList.update c (update (case map_of M c of None \<Rightarrow> Stats | Some s \<Rightarrow> s) t) M))"
  by (simp add: add_line_def parse_line_def Let_def split: sum.splits)

lemma add_lines_append:
  "add_lines (xs @ ys) A = (case add_lines xs A of Inl e \<Rightarrow> Inl e | Inr B \<Rightarrow> add_lines ys B)"
  by (induction xs arbitrary: A) (simp_all split: sum.splits)

lemma min16_assoc: "min16 (min16 a b) c = min16 a (min16 b c)"
proof -
  have "sint (min16 (min16 a b) c) = sint (min16 a (min16 b c))"
    by (simp add: sint_min16 min.assoc)
  then show ?thesis by (rule signed_word_eqI)
qed

lemma max16_assoc: "max16 (max16 a b) c = max16 a (max16 b c)"
proof -
  have "sint (max16 (max16 a b) c) = sint (max16 a (max16 b c))"
    by (simp add: sint_max16 max.assoc)
  then show ?thesis by (rule signed_word_eqI)
qed

lemma update_merge: "update (merge a b) t = merge a (update b t)"
  by (simp add: update_def merge_def min16_assoc max16_assoc add.assoc)

lemma min16_Stats_right: "min16 v (st_min Stats) = v"
proof -
  have "sint (min16 v (st_min Stats)) = sint v"
    using sint_16_le_max [of v] by (simp add: sint_min16 Stats_def)
  then show ?thesis by (rule signed_word_eqI)
qed

lemma max16_Stats_right: "max16 v (st_max Stats) = v"
proof -
  have "sint (max16 v (st_max Stats)) = sint v"
    using sint_16_ge_min [of v] by (simp add: sint_max16 Stats_def)
  then show ?thesis by (rule signed_word_eqI)
qed

lemma merge_Stats_right: "merge s Stats = s"
  by (simp add: merge_def min16_Stats_right max16_Stats_right) (simp add: Stats_def)

lemma merged_view_add_line:
  assumes "merged_view A B C" and "add_line C l = Inr C'"
  shows "\<exists>B'. add_line B l = Inr B' \<and> merged_view A B' C'"
proof -
  from assms(2) obtain c t where p: "parse_line l = Inr (c, t)"
    by (auto simp: add_line_parse split: sum.splits)
  let ?cur = "\<lambda>M. case map_of M c of None \<Rightarrow> Stats | Some s \<Rightarrow> s"
  from assms(2) p have C': "C' = AList.update c (update (?cur C) t) C"
    by (simp add: add_line_parse)
  let ?B' = "AList.update c (update (?cur B) t) B"
  have B': "add_line B l = Inr ?B'"
    by (simp add: add_line_parse p)
  from assms(1) have v: "map_of C k = merge_option (map_of A k) (map_of B k)" for k
    by (simp add: merged_view_def)
  have "?cur C = merge (?cur A) (?cur B)"
    using v [of c]
    by (cases "map_of A c"; cases "map_of B c") (simp_all add: merge_option_def merge_Stats_right)
  then have "map_of C' k = merge_option (map_of A k) (map_of ?B' k)" for k
    using v [of k] by (simp add: C' update_conv' merge_option_def update_merge)
  then have "merged_view A ?B' C'"
    by (simp add: merged_view_def)
  with B' show ?thesis
    by blast
qed

lemma merged_view_add_lines:
  assumes "merged_view A B C" and "add_lines V C = Inr C'"
  shows "\<exists>B'. add_lines V B = Inr B' \<and> merged_view A B' C'"
  using assms
proof (induction V arbitrary: B C)
  case Nil
  then show ?case by simp
next
  case (Cons l V)
  from Cons.prems(2) obtain C1 where C1: "add_line C l = Inr C1" and r: "add_lines V C1 = Inr C'"
    by (auto split: sum.splits)
  from merged_view_add_line [OF Cons.prems(1) C1] obtain B1 where B1: "add_line B l = Inr B1"
    and v: "merged_view A B1 C1"
    by blast
  from Cons.IH [OF v r] B1 show ?case
    by simp
qed

lemma merged_view_empty: "merged_view A [] A"
  by (simp add: merged_view_def merge_option_def)

lemma process_segment_lines:
  assumes "sv_chars s = enc ls" "\<forall>l\<in>set ls. NL \<notin> set l"
  shows "process_lines (Reader s) A = add_lines (line_views (sv_ptr s) ls) A"
  using process_lines_from [of ls "[]" 0 s A] assms by (simp add: Reader_def enc_def)

lemma feed_collect:
  assumes "\<forall>s\<in>set segs. terminated (sv_chars s)" and "feed segs A = Inr W"
  shows "\<exists>Bs. collect (map process_segment segs) = Inr Bs
    \<and> (\<forall>k. map_of W k = foldl merge_option (map_of A k) (map (\<lambda>B. map_of B k) Bs))"
  using assms
proof (induction segs arbitrary: A)
  case Nil
  then show ?case by simp
next
  case (Cons s ss)
  from Cons.prems(2) obtain A1 where A1: "process_lines (Reader s) A = Inr A1"
    and r: "feed ss A1 = Inr W"
    by (auto split: sum.splits)
  from Cons.prems(1) have "terminated (sv_chars s)"
    by simp
  then obtain ls where ls: "sv_chars s = enc ls" "\<forall>l\<in>set ls. NL \<notin> set l"
    by (rule terminated_lines_exist)
  from A1 have "add_lines (line_views (sv_ptr s) ls) A = Inr A1"
    by (simp add: process_segment_lines [OF ls])
  from merged_view_add_lines [OF merged_view_empty this]
  obtain B where B: "add_lines (line_views (sv_ptr s) ls) [] = Inr B" and v: "merged_view A B A1"
    by blast
  from B have ps: "process_segment s = Inr B"
    by (simp add: process_segment_def make_map_def process_segment_lines [OF ls])
  from Cons.prems(1) have "\<forall>s\<in>set ss. terminated (sv_chars s)"
    by simp
  from Cons.IH [OF this r] obtain Bs where Bs: "collect (map process_segment ss) = Inr Bs"
    and w: "\<forall>k. map_of W k = foldl merge_option (map_of A1 k) (map (\<lambda>B. map_of B k) Bs)"
    by blast
  from v have "map_of A1 k = merge_option (map_of A k) (map_of B k)" for k
    by (simp add: merged_view_def)
  with w have "\<forall>k. map_of W k = foldl merge_option (map_of A k) (map (\<lambda>B. map_of B k) (B # Bs))"
    by simp
  with ps Bs show ?case
    by auto
qed

lemma feed_all_lines:
  assumes "\<forall>s\<in>set segs. terminated (sv_chars s)"
    and "\<forall>i<length segs. sv_ptr (segs ! i) = p + length (concat (map sv_chars (take i segs)))"
  shows "\<exists>ls. concat (map sv_chars segs) = enc ls \<and> (\<forall>l\<in>set ls. NL \<notin> set l)
    \<and> (\<forall>A. add_lines (line_views p ls) A = feed segs A)"
  using assms
proof (induction segs arbitrary: p)
  case Nil
  have "concat (map sv_chars []) = enc [] \<and> (\<forall>l\<in>set []. NL \<notin> set l)
      \<and> (\<forall>A. add_lines (line_views p []) A = feed [] A)"
    by (simp add: enc_def)
  then show ?case by blast
next
  case (Cons s ss)
  from Cons.prems(1) have "terminated (sv_chars s)"
    by simp
  then obtain la where la: "sv_chars s = enc la" "\<forall>l\<in>set la. NL \<notin> set l"
    by (rule terminated_lines_exist)
  from Cons.prems(2) [rule_format, of 0] have ps: "sv_ptr s = p"
    by simp
  have chain: "\<forall>i<length ss. sv_ptr (ss ! i) =
      (p + length (sv_chars s)) + length (concat (map sv_chars (take i ss)))"
  proof (intro allI impI)
    fix i assume "i < length ss"
    with Cons.prems(2) [rule_format, of "Suc i"]
    show "sv_ptr (ss ! i) = (p + length (sv_chars s)) + length (concat (map sv_chars (take i ss)))"
      by simp
  qed
  from Cons.prems(1) have "\<forall>s\<in>set ss. terminated (sv_chars s)"
    by simp
  from Cons.IH [OF this chain] obtain lb where lb: "concat (map sv_chars ss) = enc lb"
    "\<forall>l\<in>set lb. NL \<notin> set l"
    "\<forall>A. add_lines (line_views (p + length (sv_chars s)) lb) A = feed ss A"
    by blast
  have 1: "concat (map sv_chars (s # ss)) = enc (la @ lb)"
    by (simp add: la(1) lb(1) enc_append)
  have 2: "\<forall>l\<in>set (la @ lb). NL \<notin> set l"
    using la(2) lb(2) by auto
  have 3: "add_lines (line_views p (la @ lb)) A = feed (s # ss) A" for A
    using lb(3) by (simp add: line_views_append add_lines_append
        process_segment_lines [OF la] ps la(1) [symmetric] split: sum.splits)
  from 1 2 3 show ?case
    by blast
qed

lemma segments_facts:
  assumes "sv_chars data \<noteq> []" "last (sv_chars data) = NL"
    and "0 < N" "N dvd sv_size data" "sv_size data < 2 ^ 63"
  shows "concat (map sv_chars (map (segment_of data (sv_size data div N)) [0..<N])) = sv_chars data"
    and "\<forall>i<N. sv_chars (map (segment_of data (sv_size data div N)) [0..<N] ! i) = []
          \<or> last (sv_chars (map (segment_of data (sv_size data div N)) [0..<N] ! i)) = NL"
    and "\<forall>i<N. sv_ptr (map (segment_of data (sv_size data div N)) [0..<N] ! i) =
          sv_ptr data
          + length (concat (map sv_chars (take i (map (segment_of data (sv_size data div N)) [0..<N]))))"
    and "\<forall>i<N. \<exists>b. sv_ptr (map (segment_of data (sv_size data div N)) [0..<N] ! i) = sv_ptr data + b
          \<and> (b = 0 \<or> sv_chars data ! (b - 1) = NL)"
    and "sv_ptr (last (map (segment_of data (sv_size data div N)) [0..<N]))
          + sv_size (last (map (segment_of data (sv_size data div N)) [0..<N])) =
         sv_ptr data + sv_size data"
proof -
  let ?d = "sv_chars data"
  let ?c = "sv_size data div N"
  let ?b = "\<lambda>i. next_start ?d (i * ?c)"
  let ?segs = "map (segment_of data ?c) [0..<N]"
  from assms(1) have pos: "0 < sv_size data"
    by (simp add: sv_size_def)
  note cs = chunk_size_exact [OF assms(3,4,5) pos]
  have le: "i * ?c \<le> length ?d" if "i \<le> N" for i
  proof -
    from that have "i * ?c \<le> N * ?c"
      by (rule mult_le_mono1)
    with cs(2) show ?thesis
      by (simp add: sv_size_def)
  qed
  note bd = next_start_bounds [OF assms(1,2) le]
  have mono: "?b i \<le> ?b j" if "i \<le> j" "j \<le> N" for i j
    using assms(1,2) that by (intro next_start_mono le mult_le_mono1)
  have bN: "?b N = length ?d"
    using next_start_end [OF assms(1,2)] cs(2) by (simp add: sv_size_def)
  show "concat (map sv_chars ?segs) = ?d"
    using segments_partition [OF assms(1,2,3) cs(2), of N] bN by simp
  have chars: "sv_chars (?segs ! i) = take (?b (Suc i) - ?b i) (drop (?b i) ?d)" if "i < N" for i
    using that by (simp add: segment_of_def)
  have "sv_chars (?segs ! i) = [] \<or> last (sv_chars (?segs ! i)) = NL" if "i < N" for i
  proof (cases "?b i < ?b (Suc i)")
    case True
    from that have s: "Suc i \<le> N"
      by simp
    from bd(2) [OF s] have l: "?b (Suc i) \<le> length ?d" .
    with True have ne: "take (?b (Suc i) - ?b i) (drop (?b i) ?d) \<noteq> []"
      by simp
    from True l have len: "length (take (?b (Suc i) - ?b i) (drop (?b i) ?d)) = ?b (Suc i) - ?b i"
      by simp
    have "last (take (?b (Suc i) - ?b i) (drop (?b i) ?d)) =
        take (?b (Suc i) - ?b i) (drop (?b i) ?d) ! (?b (Suc i) - ?b i - 1)"
      using ne len by (simp add: last_conv_nth)
    also have "\<dots> = ?d ! (?b i + (?b (Suc i) - ?b i - 1))"
      using True l by simp
    also have "?b i + (?b (Suc i) - ?b i - 1) = ?b (Suc i) - 1"
      using True by simp
    also have "?d ! (?b (Suc i) - 1) = NL"
      using bd(3) [OF s] True by auto
    finally show ?thesis
      by (simp add: chars [OF that])
  next
    case False
    then show ?thesis
      by (simp add: chars [OF that])
  qed
  then show "\<forall>i<N. sv_chars (?segs ! i) = [] \<or> last (sv_chars (?segs ! i)) = NL"
    by blast
  have ptr: "sv_ptr (?segs ! i) = sv_ptr data + ?b i
      \<and> length (concat (map sv_chars (take i ?segs))) = ?b i
      \<and> (?b i = 0 \<or> ?d ! (?b i - 1) = NL)" if "i < N" for i
  proof -
    from that have i: "i \<le> N"
      by simp
    have "take i ?segs = map (segment_of data ?c) [0..<i]"
      using i by (simp add: take_map)
    then have "concat (map sv_chars (take i ?segs)) = take (?b i) ?d"
      using segments_partition [OF assms(1,2,3) cs(2) i] by simp
    then have "length (concat (map sv_chars (take i ?segs))) = ?b i"
      using bd(2) [OF i] by simp
    moreover have "sv_ptr (?segs ! i) = sv_ptr data + ?b i"
      using that by (simp add: segment_of_def)
    ultimately show ?thesis
      using bd(3) [OF i] by simp
  qed
  then show "\<forall>i<N. sv_ptr (?segs ! i) =
      sv_ptr data + length (concat (map sv_chars (take i ?segs)))"
    by simp
  from ptr show "\<forall>i<N. \<exists>b. sv_ptr (?segs ! i) = sv_ptr data + b \<and> (b = 0 \<or> ?d ! (b - 1) = NL)"
    by blast
  show "sv_ptr (last ?segs) + sv_size (last ?segs) = sv_ptr data + sv_size data"
  proof -
    define s where "s = ?b (N - 1)"
    from assms(3) have l: "last ?segs = segment_of data ?c (N - 1)"
      by (simp add: last_map)
    from assms(3) have e: "(N - 1 + 1) * ?c = N * ?c"
      by simp
    have "?b (N - 1) \<le> ?b N"
      by (rule mono) simp_all
    with bN have sl: "s \<le> length ?d"
      by (simp add: s_def)
    have "segment_of data ?c (N - 1) =
        \<lparr>sv_ptr = sv_ptr data + s, sv_chars = take (length ?d - s) (drop s ?d)\<rparr>"
      unfolding segment_of_def e bN s_def ..
    with sl show ?thesis
      unfolding l by (simp add: sv_size_def)
  qed
qed

lemma distinct_add_lines:
  "distinct (map fst A) \<Longrightarrow> add_lines V A = Inr B \<Longrightarrow> distinct (map fst B)"
proof (induction V arbitrary: A)
  case Nil
  then show ?case by simp
next
  case (Cons l V)
  from Cons.prems(2) obtain A1 where A1: "add_line A l = Inr A1" and r: "add_lines V A1 = Inr B"
    by (auto split: sum.splits)
  from A1 Cons.prems(1) have "distinct (map fst A1)"
    by (auto simp: add_line_parse distinct_update split: sum.splits)
  from Cons.IH [OF this r] show ?case .
qed

lemma distinct_process_segment:
  assumes "terminated (sv_chars s)" "process_segment s = Inr B"
  shows "distinct (map fst B)"
proof -
  from assms(1) obtain ls where ls: "sv_chars s = enc ls" "\<forall>l\<in>set ls. NL \<notin> set l"
    by (rule terminated_lines_exist)
  from assms(2) have "add_lines (line_views (sv_ptr s) ls) [] = Inr B"
    by (simp add: process_segment_def make_map_def process_segment_lines [OF ls])
  with distinct_add_lines [of "[]"] show ?thesis
    by simp
qed

lemma collect_nth:
  "collect rs = Inr xs \<Longrightarrow> i < length rs \<Longrightarrow> rs ! i = Inr (xs ! i)"
proof (induction rs arbitrary: xs i)
  case Nil
  then show ?case by simp
next
  case (Cons r rs)
  then show ?case
    by (cases r; cases i) (auto split: sum.splits)
qed

lemma map_of_merge_results_fold:
  assumes "\<forall>m\<in>set ms. distinct (map fst m)" and "merge_results ms = Inr merged"
  shows "map_of merged k = foldl merge_option None (map (\<lambda>m. map_of m k) ms)"
proof -
  from assms(2) obtain front rest where ms: "ms = front # rest"
    and merged: "merged = fold merge_map rest front"
    by (cases ms) auto
  from assms(1) ms have r: "\<forall>m\<in>set rest. distinct (map fst m)"
    by simp
  have "foldl merge_option None (map (\<lambda>m. map_of m k) ms) =
      foldl merge_option (map_of front k) (map (\<lambda>m. map_of m k) rest)"
    by (cases "map_of front k") (simp_all add: ms merge_option_def merge_Stats)
  then show ?thesis
    using map_of_fold_merge_map [OF r, of front k] by (simp add: merged)
qed

lemma sort_key_map_of:
  assumes "distinct (map fst xs)" "distinct (map fst ys)" "map_of xs = map_of ys"
  shows "sort_key fst xs = sort_key fst (ys :: ('a :: linorder \<times> 'b) list)"
proof -
  from assms have s: "set xs = set ys"
    by (simp add: map_of_inject_set)
  from assms(1) have "inj_on fst (set xs)"
    by (simp add: distinct_map)
  then have 1: "inj_on fst (set (sort_key fst xs) \<union> set (sort_key fst ys))"
    by (simp add: s)
  have 2: "sorted (map fst (sort_key fst xs))" and 4: "sorted (map fst (sort_key fst ys))"
    by (rule sorted_sort_key)+
  have m: "mset (map fst (sort_key fst zs)) = mset (map fst zs)" for zs :: "('a \<times> 'b) list"
    by simp
  have 3: "distinct (map fst (sort_key fst xs))"
    using assms(1) mset_eq_imp_distinct_iff [OF m [of xs]] by simp
  have 5: "distinct (map fst (sort_key fst ys))"
    using assms(2) mset_eq_imp_distinct_iff [OF m [of ys]] by simp
  have 6: "set (sort_key fst xs) = set (sort_key fst ys)"
    by (simp add: s)
  from 1 2 3 4 5 6 show ?thesis
    by (rule map_sorted_distinct_set_unique)
qed

lemma dump_results_map_of:
  "distinct (map fst xs) \<Longrightarrow> distinct (map fst ys) \<Longrightarrow> map_of xs = map_of ys \<Longrightarrow>
   dump_results xs = dump_results ys"
  using sort_key_map_of [of xs ys] by (simp add: dump_results_def)

text \<open>
  For a buffer that ends with a line terminator and a worker count that divides its size,
  the workers' maps merge into what one worker finds in the whole buffer.
\<close>

lemma process_all_independent:
  assumes "sv_chars data \<noteq> []" "last (sv_chars data) = NL"
    and "0 < N" "N dvd sv_size data" "sv_size data < 2 ^ 63"
    and "process_segment data = Inr W"
  shows "\<exists>segs merged. split_input data (int N) = Inr segs \<and> process_all segs = Inr merged
    \<and> distinct (map fst W) \<and> distinct (map fst merged) \<and> map_of merged = map_of W"
proof -
  let ?segs = "map (segment_of data (sv_size data div N)) [0..<N]"
  note f = segments_facts [OF assms(1-5)]
  have si: "split_input data (int N) = Inr ?segs"
    by (rule split_input_eq [OF assms(1-5)])
  have len: "length ?segs = N"
    by simp
  have tm: "\<forall>s\<in>set ?segs. terminated (sv_chars s)"
  proof
    fix s assume "s \<in> set ?segs"
    then obtain i where "i < length ?segs" "s = ?segs ! i"
      unfolding in_set_conv_nth by blast
    with f(2) len show "terminated (sv_chars s)"
      unfolding terminated_def by simp
  qed
  from f(3) len have chain: "\<forall>i<length ?segs. sv_ptr (?segs ! i) =
      sv_ptr data + length (concat (map sv_chars (take i ?segs)))"
    by simp
  from feed_all_lines [OF tm chain] obtain ls where ls: "concat (map sv_chars ?segs) = enc ls"
    "\<forall>l\<in>set ls. NL \<notin> set l" "\<forall>A. add_lines (line_views (sv_ptr data) ls) A = feed ?segs A"
    by blast
  from ls(1) f(1) have d: "sv_chars data = enc ls"
    by simp
  from assms(6) have "add_lines (line_views (sv_ptr data) ls) [] = Inr W"
    by (simp add: process_segment_def make_map_def process_segment_lines [OF d ls(2)])
  with ls(3) have fw: "feed ?segs [] = Inr W"
    by simp
  from feed_collect [OF tm fw] obtain Bs where Bs: "collect (map process_segment ?segs) = Inr Bs"
    and w: "\<forall>k. map_of W k = foldl merge_option None (map (\<lambda>B. map_of B k) Bs)"
    by auto
  from collect_length [OF Bs] have lb: "length Bs = N"
    by simp
  with assms(3) obtain front rest where fr: "Bs = front # rest"
    by (cases Bs) auto
  define merged where "merged = fold merge_map rest front"
  have mr: "merge_results Bs = Inr merged"
    by (simp add: fr merged_def)
  have dB: "\<forall>B\<in>set Bs. distinct (map fst B)"
  proof
    fix B assume "B \<in> set Bs"
    then obtain i where i: "i < N" "B = Bs ! i"
      unfolding in_set_conv_nth lb by blast
    from collect_nth [OF Bs, of i] i have "process_segment (?segs ! i) = Inr B"
      by simp
    moreover from i(1) have "?segs ! i \<in> set ?segs"
      by (intro nth_mem) simp
    with tm have "terminated (sv_chars (?segs ! i))"
      by blast
    ultimately show "distinct (map fst B)"
      by (rule distinct_process_segment [rotated])
  qed
  have "map_of merged k = map_of W k" for k
    using map_of_merge_results_fold [OF dB mr, of k] w by simp
  then have eq: "map_of merged = map_of W"
    by (rule ext)
  from dB fr have "distinct (map fst front)"
    by simp
  then have dm: "distinct (map fst merged)"
    unfolding merged_def by (rule distinct_fold_merge_map)
  have "terminated (sv_chars data)"
    using assms(2) by (simp add: terminated_def)
  then have dW: "distinct (map fst W)"
    using assms(6) by (rule distinct_process_segment)
  have "process_all ?segs = Inr merged"
    unfolding process_all_def Bs sum.case by (rule mr)
  with si dW dm eq show ?thesis
    by blast
qed

lemma segment_of_whole:
  assumes "sv_chars data \<noteq> []" "last (sv_chars data) = NL"
  shows "segment_of data (sv_size data) 0 = data"
  using next_start_end [OF assms]
  by (cases data) (simp add: segment_of_def next_start_0 sv_size_def)

lemma process_all_single:
  "process_all [s] = process_segment s"
  by (cases "process_segment s") (simp_all add: process_all_def)

text \<open>
  Claim C2, as stated, fails: a file whose last line lacks its terminator is not the same
  to one worker and to eight. With one worker \<^verbatim>\<open>split_input\<close> finds no terminator
  behind the end, \<^verbatim>\<open>npos + 1\<close> wraps to 0 and the only segment is empty: no name has
  statistics, and \<^verbatim>\<open>dump_results\<close> has nothing to print. With eight workers the
  lines before the last one are in their segments and are counted.
\<close>

theorem process_file_unterminated_counterexample:
  "split_input \<lparr>sv_ptr = 0, sv_chars = ''abc;1.0'' @ [NL] @ ''cde;12.3''\<rparr> 1 =
     Inr [\<lparr>sv_ptr = 0, sv_chars = []\<rparr>]
   \<and> process_all [\<lparr>sv_ptr = 0, sv_chars = []\<rparr>] = Inr []
   \<and> process_file (example_host (Some ''1'') (''abc;1.0'' @ [NL] @ ''cde;12.3''))
        ''measurements.txt'' = Inl (Undefined Deref_End_Iterator)
   \<and> split_input \<lparr>sv_ptr = 0, sv_chars = ''abc;1.0'' @ [NL] @ ''cde;12.3''\<rparr> 8 =
     Inr [\<lparr>sv_ptr = 0, sv_chars = ''abc;1.0'' @ [NL]\<rparr>, \<lparr>sv_ptr = 8, sv_chars = []\<rparr>,
          \<lparr>sv_ptr = 8, sv_chars = []\<rparr>, \<lparr>sv_ptr = 8, sv_chars = []\<rparr>,
          \<lparr>sv_ptr = 8, sv_chars = ''cde;12.3''\<rparr>, \<lparr>sv_ptr = 0, sv_chars = []\<rparr>,
          \<lparr>sv_ptr = 0, sv_chars = []\<rparr>, \<lparr>sv_ptr = 0, sv_chars = []\<rparr>]
   \<and> process_all
        [\<lparr>sv_ptr = 0, sv_chars = ''abc;1.0'' @ [NL]\<rparr>, \<lparr>sv_ptr = 8, sv_chars = []\<rparr>,
         \<lparr>sv_ptr = 8, sv_chars = []\<rparr>, \<lparr>sv_ptr = 8, sv_chars = []\<rparr>,
         \<lparr>sv_ptr = 8, sv_chars = ''cde;12.3''\<rparr>, \<lparr>sv_ptr = 0, sv_chars = []\<rparr>,
         \<lparr>sv_ptr = 0, sv_chars = []\<rparr>, \<lparr>sv_ptr = 0, sv_chars = []\<rparr>] =
     Inr [(''abc'', \<lparr>st_min = 10, st_max = 10, st_sum = 10, st_count = 1\<rparr>)]
   \<and> process_file (example_host (Some ''8'') (''abc;1.0'' @ [NL] @ ''cde;12.3''))
        ''measurements.txt'' =
     Inr ([Text ''{'', Text ''abc'', Text ''='']
          @ [Text ''1.0'', Text ''/'', Text ''1.0'', Text ''/'', Text ''1.0'']
          @ [Text (''}'' @ [NL])])"
  by (simp add: model_defs float_defs)

text \<open>
  Claim C2, amended. For a file that ends with a line terminator and that one worker
  processes to the end, and a worker count \<open>N \<ge> 1\<close> that divides the size of the file
  (eight workers and a size that is a multiple of 8, say): \<open>N\<close> workers print the same
  bytes as one worker, and the merged map of the \<open>N\<close> workers holds under every name the
  same statistics, all four fields, as the map of the one worker.
\<close>

theorem process_file_worker_count_independent:
  assumes "files h path = Some bytes" "bytes \<noteq> []" "last bytes = NL" "length bytes < 2 ^ 63"
    and "0 < N" "N dvd length bytes" "N < 2 ^ 31"
    and "process_file (h\<lparr>getenv_NUM_THREADS := Some ''1''\<rparr>) path = Inr out"
  shows "process_file (h\<lparr>getenv_NUM_THREADS := Some (decimal_string (int N))\<rparr>) path = Inr out
    \<and> (\<exists>one_map segments merged.
          split_input \<lparr>sv_ptr = 0, sv_chars = bytes\<rparr> 1 = Inr [\<lparr>sv_ptr = 0, sv_chars = bytes\<rparr>]
          \<and> process_all [\<lparr>sv_ptr = 0, sv_chars = bytes\<rparr>] = Inr one_map
          \<and> split_input \<lparr>sv_ptr = 0, sv_chars = bytes\<rparr> (int N) = Inr segments
          \<and> process_all segments = Inr merged
          \<and> map_of merged = map_of one_map)"
proof -
  define data where "data = \<lparr>sv_ptr = 0, sv_chars = bytes\<rparr>"
  have d: "sv_chars data \<noteq> []" "last (sv_chars data) = NL" "sv_size data < 2 ^ 63"
    "N dvd sv_size data"
    using assms(2,3,4,6) by (simp_all add: data_def sv_size_def)
  have mf: "MappedFile (h\<lparr>getenv_NUM_THREADS := v\<rparr>) path = Inr data" for v
    using assms(1,2) by (simp add: MappedFile_def data_def)
  have n1: "number_of_threads (h\<lparr>getenv_NUM_THREADS := Some ''1''\<rparr>) = Inr 1"
    by (simp add: number_of_threads_def stoi_def is_space_def is_digit_def digits_value_def
        digit_value_def)
  from assms(7) have "int N < 2 ^ 31"
    by (metis of_nat_less_iff of_nat_numeral of_nat_power)
  then have nN: "number_of_threads (h\<lparr>getenv_NUM_THREADS := Some (decimal_string (int N))\<rparr>) =
      Inr (int N)"
    by (simp add: number_of_threads_def stoi_decimal_string)
  have "split_input data (int 1) = Inr (map (segment_of data (sv_size data div 1)) [0..<1])"
    using d by (intro split_input_eq) simp_all
  then have s1: "split_input data 1 = Inr [data]"
    using segment_of_whole [OF d(1,2)] by simp
  from assms(8) obtain W where W: "process_segment data = Inr W" and dW: "dump_results W = Inr out"
    by (cases "process_segment data") (simp_all add: process_file_def mf n1 s1 process_all_single)
  from process_all_independent [OF d(1,2) assms(5) d(4,3) W]
  obtain segs merged where sm: "split_input data (int N) = Inr segs" "process_all segs = Inr merged"
    and dm: "distinct (map fst W)" "distinct (map fst merged)" and eq: "map_of merged = map_of W"
    by blast
  from sm dm eq dW dump_results_map_of [of merged W]
  have "process_file (h\<lparr>getenv_NUM_THREADS := Some (decimal_string (int N))\<rparr>) path = Inr out"
    by (simp add: process_file_def mf nN)
  moreover have "process_all [data] = Inr W"
    using W by (simp add: process_all_single)
  ultimately show ?thesis
    using s1 sm eq unfolding data_def by blast
qed

text \<open>
  An instance: a file of two records and sixteen bytes, with eight workers. The chunk
  size is 2; the first and the fourth segment hold the two lines, the others are empty.
\<close>

theorem process_file_worker_count_independent_witness:
  "split_input \<lparr>sv_ptr = 0, sv_chars = ''ab;1.0'' @ [NL] @ ''cde;12.3'' @ [NL]\<rparr> 8 =
     Inr [\<lparr>sv_ptr = 0, sv_chars = ''ab;1.0'' @ [NL]\<rparr>, \<lparr>sv_ptr = 7, sv_chars = []\<rparr>,
          \<lparr>sv_ptr = 7, sv_chars = []\<rparr>, \<lparr>sv_ptr = 7, sv_chars = ''cde;12.3'' @ [NL]\<rparr>,
          \<lparr>sv_ptr = 16, sv_chars = []\<rparr>, \<lparr>sv_ptr = 16, sv_chars = []\<rparr>,
          \<lparr>sv_ptr = 16, sv_chars = []\<rparr>, \<lparr>sv_ptr = 16, sv_chars = []\<rparr>]
   \<and> process_file (example_host (Some ''8'') (''ab;1.0'' @ [NL] @ ''cde;12.3'' @ [NL]))
        ''measurements.txt'' =
     Inr ([Text ''{'', Text ''ab'', Text ''='']
          @ [Text ''1.0'', Text ''/'', Text ''1.0'', Text ''/'', Text ''1.0'']
          @ [Text '', '', Text ''cde'', Text ''='']
          @ [Text ''12.3'', Text ''/'', Text ''12.3'', Text ''/'', Text ''12.3'']
          @ [Text (''}'' @ [NL])])"
proof -
  let ?B = "''ab;1.0'' @ [NL] @ ''cde;12.3'' @ [NL]"
  let ?out = "[Text ''{'', Text ''ab'', Text ''='']
          @ [Text ''1.0'', Text ''/'', Text ''1.0'', Text ''/'', Text ''1.0'']
          @ [Text '', '', Text ''cde'', Text ''='']
          @ [Text ''12.3'', Text ''/'', Text ''12.3'', Text ''/'', Text ''12.3'']
          @ [Text (''}'' @ [NL])]"
  have s: "split_input \<lparr>sv_ptr = 0, sv_chars = ?B\<rparr> 8 =
     Inr [\<lparr>sv_ptr = 0, sv_chars = ''ab;1.0'' @ [NL]\<rparr>, \<lparr>sv_ptr = 7, sv_chars = []\<rparr>,
          \<lparr>sv_ptr = 7, sv_chars = []\<rparr>, \<lparr>sv_ptr = 7, sv_chars = ''cde;12.3'' @ [NL]\<rparr>,
          \<lparr>sv_ptr = 16, sv_chars = []\<rparr>, \<lparr>sv_ptr = 16, sv_chars = []\<rparr>,
          \<lparr>sv_ptr = 16, sv_chars = []\<rparr>, \<lparr>sv_ptr = 16, sv_chars = []\<rparr>]"
    by (simp add: model_defs)
  have one: "process_file (example_host (Some ''1'') ?B) ''measurements.txt'' = Inr ?out"
    by (simp add: model_defs float_defs less_eq_char_def)
  have d: "decimal_string 8 = ''8''"
    by (simp add: decimal_string_def digits.simps digit_char_def)
  have e: "(example_host None ?B)\<lparr>getenv_NUM_THREADS := Some v\<rparr> = example_host (Some v) ?B" for v
    by (simp add: example_host_def)
  have f: "files (example_host None ?B) ''measurements.txt'' = Some ?B"
    by (simp add: example_host_def)
  have "process_file ((example_host None ?B)\<lparr>getenv_NUM_THREADS := Some (decimal_string (int 8))\<rparr>)
      ''measurements.txt'' = Inr ?out"
  proof (rule process_file_worker_count_independent [OF f, THEN conjunct1])
    have "length ?B = 8 * 2"
      by simp
    then show "8 dvd length ?B"
      by (rule dvdI)
    show "process_file ((example_host None ?B)\<lparr>getenv_NUM_THREADS := Some ''1''\<rparr>)
        ''measurements.txt'' = Inr ?out"
      unfolding e by (rule one)
  qed (simp_all add: NL_def)
  then have "process_file (example_host (Some (decimal_string (int 8))) ?B) ''measurements.txt'' =
      Inr ?out"
    unfolding e .
  then have "process_file (example_host (Some ''8'') ?B) ''measurements.txt'' = Inr ?out"
    using d by simp
  with s show ?thesis
    by simp
qed

end
